theory Spec2Isabelle
  imports Main "HOL-Library.Word"
begin
unbundle bit_operations_syntax

section \<open>Nibble and key encodings\<close>

text \<open>
  Byte strings are lists of 8-bit words. A hex path (\<open>encoding.Hex\<close>) holds one nibble
  per byte, with an optional trailing terminator of value 16. Go runtime panics and
  returned errors are values of the type \<open>error\<close>.
\<close>

type_synonym byte = "8 word"
type_synonym bytes = "byte list"
type_synonym hex = "byte list"
type_synonym u32 = "32 word"

datatype error =
    ErrKeyNil
  | ErrKeyLength
  | ErrValueNil
  | ErrValueReserved
  | ErrUnsupportedNodeType
  | ErrStorage
  | PanicIndexOutOfRange
  | PanicOddLength
  | PanicHashMismatch
  | PanicNilNode
  | PanicDeletedLeaf
  | PanicTypeAssertion
  | PanicStoragePathLength

definition Keybytes_Hex :: "bytes \<Rightarrow> hex" where
  "Keybytes_Hex kb = concat (map (\<lambda>b. [b div 16, b mod 16]) kb) @ [16]"

definition HasTerm :: "hex \<Rightarrow> bool" where
  "HasTerm h \<longleftrightarrow> length h > 0 \<and> last h = 16"

fun decodeNibbles :: "hex \<Rightarrow> error + bytes" where
  "decodeNibbles [] = Inr []"
| "decodeNibbles [a] = Inl PanicIndexOutOfRange"
| "decodeNibbles (a # b # rest) =
     (case decodeNibbles rest of
        Inl e \<Rightarrow> Inl e
      | Inr bs \<Rightarrow> Inr ((push_bit 4 a OR b) # bs))"

definition Hex_Keybytes :: "hex \<Rightarrow> error + bytes" where
  "Hex_Keybytes h =
     (let hex = (if HasTerm h then butlast h else h) in
      if odd (length hex) then Inl PanicOddLength else decodeNibbles hex)"

definition Hex_Compact :: "hex \<Rightarrow> error + bytes" where
  "Hex_Compact h =
     (let terminator = (if HasTerm h then 1 else 0 :: byte);
          hex = (if HasTerm h then butlast h else h);
          flag = push_bit 5 terminator
      in if odd (length hex)
         then (case decodeNibbles (tl hex) of
                 Inl e \<Rightarrow> Inl e
               | Inr bs \<Rightarrow> Inr ((flag OR push_bit 4 1 OR hd hex) # bs))
         else (case decodeNibbles hex of
                 Inl e \<Rightarrow> Inl e
               | Inr bs \<Rightarrow> Inr (flag # bs)))"

definition Compact_Hex :: "bytes \<Rightarrow> error + hex" where
  "Compact_Hex c =
     (let base = Keybytes_Hex c;
          base' = (if base ! 0 < 2 then butlast base else base);
          chop = unat (2 - (base ! 0 AND 1))
      in if length base' < chop then Inl PanicIndexOutOfRange
         else Inr (drop chop base'))"

section \<open>Version nodes\<close>

text \<open>
  \<open>versionnode.KeySet\<close> is a Go map from paths to versions. It is modelled as an
  association list; the code only tests membership and emptiness, removes a key and
  merges two sets, so the order of the entries is never observed.
\<close>

type_synonym KeySet = "(hex \<times> u32) list"

definition NewKeySet :: "hex \<Rightarrow> u32 \<Rightarrow> KeySet" where
  "NewKeySet key version = [(key, version)]"

definition KeySet_Contains :: "KeySet \<Rightarrow> hex \<Rightarrow> bool" where
  "KeySet_Contains ks path \<longleftrightarrow> map_of ks path \<noteq> None"

definition KeySet_Remove :: "KeySet \<Rightarrow> hex \<Rightarrow> KeySet" where
  "KeySet_Remove ks path = filter (\<lambda>(p, v). p \<noteq> path) ks"

definition KeySet_Merge :: "KeySet \<Rightarrow> KeySet \<Rightarrow> KeySet" where
  "KeySet_Merge ks others = filter (\<lambda>(p, v). map_of others p = None) ks @ others"

text \<open>
  The node variants of package \<open>versionnode\<close>. \<open>Children\<close> is an array of
  \<open>NumChildren\<close> nodes, modelled as a list whose length is the array bound; every
  constructor in the code builds sixteen entries. A \<open>Value\<close> is a byte string and is
  kept inside its leaf.
\<close>

definition NumChildren :: nat where
  "NumChildren = 16"

datatype node =
    Nil_node
  | Leaf hex bytes u32
  | Full hex "node list" u32
  | Stored bytes bool u32
  | WithDeletedKeys node KeySet

text \<open>
  The interface \<open>Live\<close> is implemented by \<open>*Nil\<close>, \<open>*Leaf\<close>, \<open>*Full\<close> and
  \<open>*WithDeletedKeys\<close>, and the field \<open>WithDeletedKeys.Node\<close> has type \<open>Live\<close>;
  \<open>*Stored\<close> is not \<open>Live\<close>. \<open>isLive\<close> is the type assertion
  \<open>n.(versionnode.Live)\<close>.
\<close>

fun isLive :: "node \<Rightarrow> bool" where
  "isLive (Stored h l v) = False"
| "isLive (WithDeletedKeys n ks) = isLive n"
| "isLive _ = True"

fun PrefixLen :: "hex \<Rightarrow> hex \<Rightarrow> nat" where
  "PrefixLen [] other = 0"
| "PrefixLen (a # h) [] = 0"
| "PrefixLen (a # h) (b # other) = (if a = b then Suc (PrefixLen h other) else 0)"

definition prefixContainedIn :: "hex \<Rightarrow> hex \<Rightarrow> nat \<Rightarrow> bool" where
  "prefixContainedIn prefix path start \<longleftrightarrow> PrefixLen prefix (drop start path) = length prefix"

fun PrefixContainedIn :: "node \<Rightarrow> hex \<Rightarrow> nat \<Rightarrow> bool" where
  "PrefixContainedIn Nil_node path start = False"
| "PrefixContainedIn (Leaf k v ver) path start = prefixContainedIn k path start"
| "PrefixContainedIn (Full k cs ver) path start = prefixContainedIn k path start"
| "PrefixContainedIn (WithDeletedKeys n ks) path start = PrefixContainedIn n path start"
| "PrefixContainedIn (Stored h l ver) path start = False"

fun Prefix :: "node \<Rightarrow> error + hex" where
  "Prefix Nil_node = Inl PanicNilNode"
| "Prefix (Leaf k v ver) = Inr k"
| "Prefix (Full k cs ver) = Inr k"
| "Prefix (WithDeletedKeys n ks) = Prefix n"
| "Prefix (Stored h l ver) = Inl ErrUnsupportedNodeType"

fun ReplacePrefix :: "node \<Rightarrow> hex \<Rightarrow> u32 \<Rightarrow> error + node" where
  "ReplacePrefix Nil_node key version = Inl PanicNilNode"
| "ReplacePrefix (Leaf k v ver) key version = Inr (Leaf key v version)"
| "ReplacePrefix (Full k cs ver) key version = Inr (Full key cs version)"
| "ReplacePrefix (WithDeletedKeys n ks) key version =
     (case ReplacePrefix n key version of
        Inl e \<Rightarrow> Inl e
      | Inr n' \<Rightarrow> Inr (WithDeletedKeys n' ks))"
| "ReplacePrefix (Stored h l ver) key version = Inl ErrUnsupportedNodeType"

definition HasSameValue :: "bytes \<Rightarrow> bytes \<Rightarrow> bool" where
  "HasSameValue nodeValue value \<longleftrightarrow> value = nodeValue"

text \<open>
  \<open>NewFullNodeWithTwoChildren\<close> and \<open>Full.AddSibling\<close> fill a fresh array with
  \<open>Nil\<close> and store two children; an index outside the array panics.
\<close>

definition setTwoChildren :: "nat \<Rightarrow> node \<Rightarrow> nat \<Rightarrow> node \<Rightarrow> error + node list" where
  "setTwoChildren firstChildIndex firstChild secondChildIndex secondChild =
     (if NumChildren \<le> firstChildIndex \<or> NumChildren \<le> secondChildIndex
      then Inl PanicIndexOutOfRange
      else Inr (((replicate NumChildren Nil_node)[firstChildIndex := firstChild])
                  [secondChildIndex := secondChild]))"

fun AddSibling :: "node \<Rightarrow> hex \<Rightarrow> hex \<Rightarrow> bytes \<Rightarrow> u32 \<Rightarrow> error + node" where
  "AddSibling Nil_node key fullPath value version = Inr (Leaf key value version)"
| "AddSibling (Leaf nKey nValue ver) key fullPath value version =
     (let matchlen = PrefixLen key nKey;
          commonOffset = take matchlen key
      in if length nKey \<le> matchlen \<or> length key \<le> matchlen then Inl PanicIndexOutOfRange
         else
           (let currentChildIndex = unat (nKey ! matchlen);
                currentChild = Leaf (drop (matchlen + 1) nKey) nValue version;
                newChildIndex = unat (key ! matchlen);
                newChild = Leaf (drop (matchlen + 1) key) value version
            in case setTwoChildren currentChildIndex currentChild newChildIndex newChild of
                 Inl e \<Rightarrow> Inl e
               | Inr children \<Rightarrow> Inr (Full commonOffset children version)))"
| "AddSibling (Full nKey nChildren ver) key fullPath value version =
     (let matchlen = PrefixLen key nKey;
          commonOffset = take matchlen key
      in if length nKey \<le> matchlen \<or> length key \<le> matchlen then Inl PanicIndexOutOfRange
         else
           (let updatedChildIndex = unat (nKey ! matchlen);
                updatedChild = Full (drop (matchlen + 1) nKey) nChildren version;
                newChildIndex = unat (key ! matchlen);
                newChild = Leaf (drop (matchlen + 1) key) value version
            in case setTwoChildren updatedChildIndex updatedChild newChildIndex newChild of
                 Inl e \<Rightarrow> Inl e
               | Inr children \<Rightarrow> Inr (Full commonOffset children version)))"
| "AddSibling (WithDeletedKeys n ks) key fullPath value version =
     (case AddSibling n key fullPath value version of
        Inl e \<Rightarrow> Inl e
      | Inr newNode \<Rightarrow>
          if \<not> KeySet_Contains ks fullPath then Inr (WithDeletedKeys newNode ks)
          else (let remainingDeletedKeys = KeySet_Remove ks fullPath
                in if remainingDeletedKeys = [] then Inr newNode
                   else Inr (WithDeletedKeys newNode remainingDeletedKeys)))"
| "AddSibling (Stored h l ver) key fullPath value version = Inl ErrUnsupportedNodeType"

fun LastLivingChild_loop :: "node list \<Rightarrow> nat \<Rightarrow> int \<times> bool \<Rightarrow> int \<times> bool" where
  "LastLivingChild_loop [] i acc = acc"
| "LastLivingChild_loop (c # cs) i (index, onlyChild) =
     LastLivingChild_loop cs (Suc i)
       (if c \<noteq> Nil_node then (int i, index = - 1) else (index, onlyChild))"

definition LastLivingChild :: "node list \<Rightarrow> int \<times> bool" where
  "LastLivingChild c = LastLivingChild_loop c 0 (- 1, False)"

definition Children_Replace :: "node list \<Rightarrow> byte \<Rightarrow> node \<Rightarrow> error + node list" where
  "Children_Replace c index n =
     (if length c \<le> unat index then Inl PanicIndexOutOfRange
      else Inr (c[unat index := n]))"

section \<open>Integrity nodes and the finalizer\<close>

text \<open>
  Modelled from the spec: the recursive-length-prefix encoding of package \<open>rlp\<close>
  and the Keccak-256 hash are external to the sources. The encoding follows the
  standard definition (a single byte below 128 is its own encoding, a string or list of
  up to 55 bytes takes a one-byte header, a longer one a header with the big-endian
  length); the hash function is a parameter, carried by the finalizer.
\<close>

datatype inode =
    INil
  | IHash bytes
  | ILeaf bytes bytes
  | IExtension bytes inode
  | IFull "inode list"

function beBytes :: "nat \<Rightarrow> bytes" where
  "beBytes n = (if n = 0 then [] else beBytes (n div 256) @ [of_nat (n mod 256)])"
  by pat_completeness auto
termination
  by (relation "measure id") auto

definition rlpHeader :: "nat \<Rightarrow> nat \<Rightarrow> bytes" where
  "rlpHeader base len =
     (if len \<le> 55 then [of_nat (base + len)]
      else of_nat (base + 55 + length (beBytes len)) # beBytes len)"

definition rlpString :: "bytes \<Rightarrow> bytes" where
  "rlpString s = (if length s = 1 \<and> hd s < 128 then s else rlpHeader 128 (length s) @ s)"

definition rlpList :: "bytes list \<Rightarrow> bytes" where
  "rlpList items = (let payload = concat items in rlpHeader 192 (length payload) @ payload)"

fun EncodeToBytes :: "inode \<Rightarrow> bytes" where
  "EncodeToBytes INil = rlpString []"
| "EncodeToBytes (IHash h) = rlpString h"
| "EncodeToBytes (ILeaf key value) = rlpList [rlpString key, rlpString value]"
| "EncodeToBytes (IExtension key child) = rlpList [rlpString key, EncodeToBytes child]"
| "EncodeToBytes (IFull children) = rlpList (map EncodeToBytes children)"

definition HashLength :: nat where
  "HashLength = 32"

definition emptyRoot :: bytes where
  "emptyRoot =
     [0x56, 0xe8, 0x1f, 0x17, 0x1b, 0xcc, 0x55, 0xa6, 0xff, 0x83, 0x45, 0xe6, 0x92, 0xc0, 0xf8, 0x6e,
      0x5b, 0x48, 0xe0, 0x1b, 0x99, 0x6c, 0xad, 0xc0, 0x01, 0x62, 0x2f, 0xb5, 0xe3, 0x63, 0xb4, 0x21]"

definition deletedValue :: bytes where
  "deletedValue = [0x80]"

text \<open>
  The finalizer. \<open>Hash\<close> and the integrity checks of the engine call \<open>Finalize\<close> with
  \<open>shouldStore = false\<close>, so the batch is nil; the statements guarded by
  \<open>batch != nil\<close> (and with them the path argument, which only builds storage keys)
  are left out here. They are in \<open>finalizeIO\<close> below, which is \<open>finalize\<close> with the
  batch and the calls on the collection; without a batch the two return the same.
\<close>

record Finalizer =
  Keccak256Hash :: "bytes \<Rightarrow> bytes"

definition canonicalFullNodeIntegrityNodeAndRLP ::
    "Finalizer \<Rightarrow> inode \<Rightarrow> hex \<Rightarrow> error + inode \<times> bytes" where
  "canonicalFullNodeIntegrityNodeAndRLP f full key =
     (let integrityRLP = EncodeToBytes full
      in if length key = 0 then Inr (full, integrityRLP)
         else
           (let child = (if HashLength \<le> length integrityRLP
                         then IHash (Keccak256Hash f integrityRLP) else full)
            in case Hex_Compact key of
                 Inl e \<Rightarrow> Inl e
               | Inr ckey \<Rightarrow>
                   (let extension = IExtension ckey child
                    in Inr (extension, EncodeToBytes extension))))"

fun finalize :: "Finalizer \<Rightarrow> node \<Rightarrow> bool \<Rightarrow> error + inode"
  and finalizeFullNodeChildren :: "Finalizer \<Rightarrow> node list \<Rightarrow> error + inode list" where
  "finalize f Nil_node forceHash = (if forceHash then Inr (IHash emptyRoot) else Inr INil)"
| "finalize f (WithDeletedKeys n ks) forceHash = finalize f n forceHash"
| "finalize f (Leaf key value ver) forceHash =
     (case Hex_Compact key of
        Inl e \<Rightarrow> Inl e
      | Inr ckey \<Rightarrow>
          (let integrityLeaf = ILeaf ckey value;
               rlp = EncodeToBytes integrityLeaf
           in if HashLength \<le> length rlp \<or> forceHash
              then Inr (IHash (Keccak256Hash f rlp))
              else Inr integrityLeaf))"
| "finalize f (Full key children ver) forceHash =
     (case finalizeFullNodeChildren f children of
        Inl e \<Rightarrow> Inl e
      | Inr integrityChildren \<Rightarrow>
          (case canonicalFullNodeIntegrityNodeAndRLP f (IFull (integrityChildren @ [INil])) key of
             Inl e \<Rightarrow> Inl e
           | Inr (canonicalIntegrityNode, canonicalIntegrityRLP) \<Rightarrow>
               if HashLength \<le> length canonicalIntegrityRLP \<or> forceHash
               then Inr (IHash (Keccak256Hash f canonicalIntegrityRLP))
               else Inr canonicalIntegrityNode))"
| "finalize f (Stored h l ver) forceHash = Inr (IHash h)"
| "finalizeFullNodeChildren f [] = Inr []"
| "finalizeFullNodeChildren f (child # rest) =
     (case finalize f child False of
        Inl e \<Rightarrow> Inl e
      | Inr integrityChild \<Rightarrow>
          (case finalizeFullNodeChildren f rest of
             Inl e \<Rightarrow> Inl e
           | Inr integrityRest \<Rightarrow> Inr (integrityChild # integrityRest)))"

definition Finalize :: "Finalizer \<Rightarrow> node \<Rightarrow> bool \<Rightarrow> error + bytes" where
  "Finalize f n forceHash =
     (case finalize f n forceHash of
        Inl e \<Rightarrow> Inl e
      | Inr i \<Rightarrow> (case i of IHash h \<Rightarrow> Inr h | _ \<Rightarrow> Inl PanicTypeAssertion))"

section \<open>The trie engine\<close>

text \<open>
  The storage layer is outside the engine: the three loaders that the engine calls are
  fields of the collection, each returning either an error or what was loaded
  (\<open>None\<close> is a nil value slice).
\<close>

record Collection =
  LoadNode :: "hex \<Rightarrow> u32 \<Rightarrow> error + node"
  LoadLeafNodeWithExactPrefixAndVersion :: "hex \<Rightarrow> u32 \<Rightarrow> error + node"
  LoadLatestValueNodeWithExactPath :: "hex \<Rightarrow> u32 \<Rightarrow> error + bytes option"

record LudicrousTrie =
  version :: u32
  root :: node
  finalizer :: Finalizer
  storage :: Collection

definition keySize :: nat where
  "keySize = 32"

definition NewEmptyPrefixedLudicrousTrie :: "Finalizer \<Rightarrow> Collection \<Rightarrow> u32 \<Rightarrow> LudicrousTrie" where
  "NewEmptyPrefixedLudicrousTrie f c v =
     \<lparr>version = v + 1, root = Nil_node, finalizer = f, storage = c\<rparr>"

definition NewEmptyLudicrousTrie :: "Finalizer \<Rightarrow> Collection \<Rightarrow> u32 \<Rightarrow> LudicrousTrie" where
  "NewEmptyLudicrousTrie f c v =
     \<lparr>version = v + 1, root = Nil_node, finalizer = f, storage = c\<rparr>"

text \<open>A nil slice has no elements: \<open>len\<close> and \<open>range\<close> treat it as empty.\<close>

definition sliceOf :: "bytes option \<Rightarrow> bytes" where
  "sliceOf b = (case b of None \<Rightarrow> [] | Some bs \<Rightarrow> bs)"

definition checkKey :: "bytes option \<Rightarrow> error option" where
  "checkKey key =
     (case key of
        None \<Rightarrow> Some ErrKeyNil
      | Some k \<Rightarrow> if length k \<noteq> keySize then Some ErrKeyLength else None)"

definition checkValue :: "bytes option \<Rightarrow> error option" where
  "checkValue key =
     (case key of
        None \<Rightarrow> Some ErrValueNil
      | Some k \<Rightarrow> if k = deletedValue then Some ErrValueReserved else None)"

definition Hash :: "LudicrousTrie \<Rightarrow> error + bytes" where
  "Hash t = Finalize (finalizer t) (root t) True"

definition loadChild ::
    "LudicrousTrie \<Rightarrow> hex \<Rightarrow> hex \<Rightarrow> int \<Rightarrow> bool \<Rightarrow> u32 \<Rightarrow> error + node" where
  "loadChild t path prefix index isLeaf ver =
     (let temp = path @ prefix @ [of_int index]
      in if isLeaf then LoadLeafNodeWithExactPrefixAndVersion (storage t) temp ver
         else LoadNode (storage t) temp ver)"

definition prependToKey :: "node \<Rightarrow> hex \<Rightarrow> int \<Rightarrow> u32 \<Rightarrow> error + node" where
  "prependToKey n prefix index ver =
     (case Prefix n of
        Inl e \<Rightarrow> Inl e
      | Inr oldPrefix \<Rightarrow> ReplacePrefix n (prefix @ [of_int index] @ oldPrefix) ver)"

definition replaceChild ::
    "LudicrousTrie \<Rightarrow> hex \<Rightarrow> node list \<Rightarrow> node \<Rightarrow> byte \<Rightarrow> hex \<Rightarrow> error + node" where
  "replaceChild t fullKey fullChildren newChild newChildRadix path =
     (case Children_Replace fullChildren newChildRadix newChild of
        Inl e \<Rightarrow> Inl e
      | Inr updatedChildren \<Rightarrow>
          (case LastLivingChild updatedChildren of
             (childRadix, onlyChild) \<Rightarrow>
               if onlyChild then
                 (let child = updatedChildren ! nat childRadix
                  in if isLive child then prependToKey child fullKey childRadix (version t)
                     else (case child of
                             Stored h isLeaf ver \<Rightarrow>
                               (case loadChild t path fullKey childRadix isLeaf ver of
                                  Inl e \<Rightarrow> Inl e
                                | Inr loaded \<Rightarrow> prependToKey loaded fullKey childRadix (version t))
                           | _ \<Rightarrow> Inl ErrUnsupportedNodeType))
               else Inr (Full fullKey updatedChildren (version t))))"

subsection \<open>Get\<close>

datatype getResult = Found "bytes option" | NotFound | GetFailed error

definition wasDeleted :: "bytes option \<Rightarrow> bool" where
  "wasDeleted v \<longleftrightarrow> (case v of None \<Rightarrow> False | Some b \<Rightarrow> b = deletedValue)"

text \<open>The \<open>Value\<close> case of \<open>get\<close>, reached from a leaf and from a loaded value.\<close>

definition getValue :: "bytes option \<Rightarrow> getResult" where
  "getValue n = (if wasDeleted n then NotFound else Found n)"

function get :: "LudicrousTrie \<Rightarrow> node \<Rightarrow> hex \<Rightarrow> nat \<Rightarrow> getResult" where
  "get t n path index =
     (if length path < index then GetFailed PanicIndexOutOfRange
      else if isLive n \<and> \<not> PrefixContainedIn n path index then NotFound
      else
        (case n of
           Leaf key value ver \<Rightarrow> getValue (Some value)
         | Full key children ver \<Rightarrow>
             (let childRadixIndex = index + length key
              in if length path \<le> childRadixIndex then GetFailed PanicIndexOutOfRange
                 else
                   (let childRadix = path ! childRadixIndex
                    in if length children \<le> unat childRadix then GetFailed PanicIndexOutOfRange
                       else get t (children ! unat childRadix) path (childRadixIndex + 1)))
         | WithDeletedKeys inner ks \<Rightarrow>
             if KeySet_Contains ks path then NotFound else get t inner path index
         | Stored h isLeaf ver \<Rightarrow>
             (case LoadLatestValueNodeWithExactPath (storage t) path (version t - 1) of
                Inl e \<Rightarrow> GetFailed e
              | Inr loaded \<Rightarrow> getValue loaded)
         | Nil_node \<Rightarrow> GetFailed ErrUnsupportedNodeType))"
  by pat_completeness auto
termination
  by (relation "measure (\<lambda>(t, n, path, index). size n)")
     (auto simp: less_Suc_eq_le intro!: size_list_estimation')

definition Get :: "LudicrousTrie \<Rightarrow> bytes option \<Rightarrow> bytes option \<times> error option" where
  "Get t key =
     (case checkKey key of
        Some err \<Rightarrow> (None, Some err)
      | None \<Rightarrow>
          (case get t (root t) (Keybytes_Hex (sliceOf key)) 0 of
             Found value \<Rightarrow> (value, None)
           | NotFound \<Rightarrow> (None, None)
           | GetFailed err \<Rightarrow> (None, Some err)))"

subsection \<open>Update\<close>

datatype updateResult = Updated node | Unchanged | UpdateFailed error

definition loadForUpdate :: "LudicrousTrie \<Rightarrow> bool \<Rightarrow> u32 \<Rightarrow> hex \<Rightarrow> error + node" where
  "loadForUpdate t isLeaf ver path =
     (if isLeaf then LoadLeafNodeWithExactPrefixAndVersion (storage t) path ver
      else LoadNode (storage t) path ver)"

function update :: "LudicrousTrie \<Rightarrow> node \<Rightarrow> hex \<Rightarrow> nat \<Rightarrow> bytes \<Rightarrow> updateResult" where
  "update t beforeNode path index value =
     (if length path < index then UpdateFailed PanicIndexOutOfRange
      else if isLive beforeNode \<and> \<not> PrefixContainedIn beforeNode path index then
        (case AddSibling beforeNode (drop index path) path value (version t) of
           Inl e \<Rightarrow> UpdateFailed e
         | Inr after \<Rightarrow> Updated after)
      else
        (case beforeNode of
           Leaf key nValue ver \<Rightarrow>
             if HasSameValue nValue value then Unchanged
             else Updated (Leaf key value (version t))
         | Full key children ver \<Rightarrow>
             (let childRadixIndex = index + length key
              in if length path \<le> childRadixIndex then UpdateFailed PanicIndexOutOfRange
                 else
                   (let childRadix = path ! childRadixIndex
                    in if length children \<le> unat childRadix then UpdateFailed PanicIndexOutOfRange
                       else
                         (case update t (children ! unat childRadix) path (childRadixIndex + 1) value of
                            Updated afterChild \<Rightarrow>
                              (case replaceChild t key children afterChild childRadix (take index path) of
                                 Inl e \<Rightarrow> UpdateFailed e
                               | Inr after \<Rightarrow> Updated after)
                          | Unchanged \<Rightarrow> Unchanged
                          | UpdateFailed e \<Rightarrow> UpdateFailed e)))
         | WithDeletedKeys inner ks \<Rightarrow>
             (case update t inner path index value of
                Updated after \<Rightarrow>
                  if KeySet_Contains ks path
                  then Updated (WithDeletedKeys after (KeySet_Remove ks path))
                  else Updated (WithDeletedKeys after ks)
              | Unchanged \<Rightarrow> Unchanged
              | UpdateFailed e \<Rightarrow> UpdateFailed e)
         | Stored h isLeaf ver \<Rightarrow>
             (case loadForUpdate t isLeaf ver (take index path) of
                Inl e \<Rightarrow> UpdateFailed e
              | Inr loaded \<Rightarrow>
                  (case Finalize (finalizer t) loaded False of
                     Inl e \<Rightarrow> UpdateFailed e
                   | Inr hash \<Rightarrow>
                       if hash \<noteq> h then UpdateFailed PanicHashMismatch
                       else if \<not> isLive loaded then UpdateFailed ErrUnsupportedNodeType
                       else update t loaded path index value))
         | Nil_node \<Rightarrow> UpdateFailed ErrUnsupportedNodeType))"
  by pat_completeness auto
termination
  by (relation "measures [\<lambda>(t, n, path, index, value). length path - index,
                          \<lambda>(t, n, path, index, value). if isLive n then 0 else 1,
                          \<lambda>(t, n, path, index, value). size n]")
     auto

definition Update :: "LudicrousTrie \<Rightarrow> bytes option \<Rightarrow> bytes option \<Rightarrow> error option \<times> LudicrousTrie" where
  "Update t key value =
     (case checkKey key of
        Some err \<Rightarrow> (Some err, t)
      | None \<Rightarrow>
          (case checkValue value of
             Some err \<Rightarrow> (Some err, t)
           | None \<Rightarrow>
               (case update t (root t) (Keybytes_Hex (sliceOf key)) 0 (sliceOf value) of
                  Updated updated \<Rightarrow> (None, t\<lparr>root := updated\<rparr>)
                | Unchanged \<Rightarrow> (None, t)
                | UpdateFailed err \<Rightarrow> (Some err, t))))"

subsection \<open>Remove\<close>

datatype removeResult = Removed node KeySet | NotRemoved | RemoveFailed error

definition noDeletedKeys :: KeySet where
  "noDeletedKeys = []"

definition loadForRemove :: "LudicrousTrie \<Rightarrow> bool \<Rightarrow> u32 \<Rightarrow> hex \<Rightarrow> nat \<Rightarrow> error + node" where
  "loadForRemove t isLeaf ver path index =
     (if isLeaf then LoadLeafNodeWithExactPrefixAndVersion (storage t) (take index path) ver
      else LoadNode (storage t) (take index path) ver)"

function remove :: "LudicrousTrie \<Rightarrow> node \<Rightarrow> hex \<Rightarrow> nat \<Rightarrow> removeResult" where
  "remove t beforeNode path index =
     (if length path < index then RemoveFailed PanicIndexOutOfRange
      else if isLive beforeNode \<and> \<not> PrefixContainedIn beforeNode path index then NotRemoved
      else
        (case beforeNode of
           Leaf key nValue ver \<Rightarrow>
             if wasDeleted (Some nValue) then RemoveFailed PanicDeletedLeaf
             else Removed Nil_node (NewKeySet path (version t))
         | Full key children ver \<Rightarrow>
             (let childRadixIndex = index + length key
              in if length path \<le> childRadixIndex then RemoveFailed PanicIndexOutOfRange
                 else
                   (let childRadix = path ! childRadixIndex
                    in if length children \<le> unat childRadix then RemoveFailed PanicIndexOutOfRange
                       else
                         (case remove t (children ! unat childRadix) path (childRadixIndex + 1) of
                            Removed afterChild deletedKeys \<Rightarrow>
                              (case replaceChild t key children afterChild childRadix (take index path) of
                                 Inl e \<Rightarrow> RemoveFailed e
                               | Inr after \<Rightarrow>
                                   if length deletedKeys = 0 then Removed after noDeletedKeys
                                   else Removed (WithDeletedKeys after deletedKeys) noDeletedKeys)
                          | NotRemoved \<Rightarrow> NotRemoved
                          | RemoveFailed e \<Rightarrow> RemoveFailed e)))
         | WithDeletedKeys inner ks \<Rightarrow>
             if KeySet_Contains ks path then NotRemoved
             else
               (case remove t inner path index of
                  Removed after newDeletedKeys \<Rightarrow>
                    (let allDeletedKeys = KeySet_Merge ks newDeletedKeys
                     in if after = Nil_node then Removed after allDeletedKeys
                        else Removed (WithDeletedKeys after allDeletedKeys) noDeletedKeys)
                | NotRemoved \<Rightarrow> NotRemoved
                | RemoveFailed e \<Rightarrow> RemoveFailed e)
         | Stored h isLeaf ver \<Rightarrow>
             (case loadForRemove t isLeaf ver path index of
                Inl e \<Rightarrow> RemoveFailed e
              | Inr loaded \<Rightarrow>
                  (case Finalize (finalizer t) loaded False of
                     Inl e \<Rightarrow> RemoveFailed e
                   | Inr hash \<Rightarrow>
                       if hash \<noteq> h then RemoveFailed PanicHashMismatch
                       else if \<not> isLive loaded then RemoveFailed ErrUnsupportedNodeType
                       else remove t loaded path index))
         | Nil_node \<Rightarrow> RemoveFailed ErrUnsupportedNodeType))"
  by pat_completeness auto
termination
  by (relation "measures [\<lambda>(t, n, path, index). length path - index,
                          \<lambda>(t, n, path, index). if isLive n then 0 else 1,
                          \<lambda>(t, n, path, index). size n]")
     auto

definition Remove :: "LudicrousTrie \<Rightarrow> bytes option \<Rightarrow> error option \<times> LudicrousTrie" where
  "Remove t key =
     (case checkKey key of
        Some err \<Rightarrow> (Some err, t)
      | None \<Rightarrow>
          (case remove t (root t) (Keybytes_Hex (sliceOf key)) 0 of
             Removed newRoot deletedKeys \<Rightarrow>
               if newRoot = Nil_node \<and> 0 < length deletedKeys
               then (None, t\<lparr>root := WithDeletedKeys newRoot deletedKeys\<rparr>)
               else (None, t\<lparr>root := newRoot\<rparr>)
           | NotRemoved \<Rightarrow> (None, t)
           | RemoveFailed err \<Rightarrow> (Some err, t)))"

section \<open>The storage calls of the finalizer\<close>

text \<open>
  \<open>Finalize\<close> with the calls it makes on its collection. A call is recorded with the
  path and the version it is made for (and the value, for a value record); the
  serialised node record that \<open>Store\<close> is given is not part of the record of the call.
  The type \<open>storageCall\<close> lists the calls that the engine and the finalizer make on the
  collection and its database: the loaders are the calls that read, and the finalizer
  makes none of them. What a call that writes does is outside the engine and is a
  parameter: it is done, it returns an error, or it panics (\<open>NewKey\<close> on a path that
  cannot be packed, or a collection without a prefix). \<open>WriteBatchError\<close> is the error
  that \<open>Finalize\<close> returns when writing the batch fails.

  The batch of the source is nil exactly when \<open>shouldStore\<close> is false; the argument
  \<open>batch\<close> of the functions below says whether it is not nil. The deleted keys of an
  overlay are a Go map, whose iteration order is not fixed; they are stored in the
  order of the list.
\<close>

datatype storageCall =
    NewBatch
  | Store hex u32
  | StoreValue hex u32 bytes
  | BatchWrite
  | LoadNodeCall hex u32
  | LoadLeafNodeCall hex u32
  | LoadLatestValueCall hex u32

datatype outcome = Done | Failed error | Panicked error

record Writer =
  StoreOutcome :: "hex \<Rightarrow> u32 \<Rightarrow> outcome"
  StoreValueOutcome :: "hex \<Rightarrow> u32 \<Rightarrow> bytes \<Rightarrow> outcome"
  WriteBatchError :: "error option"

fun Version :: "node \<Rightarrow> error + u32" where
  "Version Nil_node = Inl PanicNilNode"
| "Version (Leaf k v ver) = Inr ver"
| "Version (Full k cs ver) = Inr ver"
| "Version (Stored h l ver) = Inr ver"
| "Version (WithDeletedKeys n ks) = Version n"

fun storeDeletedKeys :: "Writer \<Rightarrow> KeySet \<Rightarrow> (error + unit) \<times> storageCall list" where
  "storeDeletedKeys w [] = (Inr (), [])"
| "storeDeletedKeys w ((path, ver) # rest) =
     (case StoreValueOutcome w path ver deletedValue of
        Done \<Rightarrow>
          (case storeDeletedKeys w rest of
             (r, calls) \<Rightarrow> (r, StoreValue path ver deletedValue # calls))
      | Failed e \<Rightarrow> (Inl e, [StoreValue path ver deletedValue])
      | Panicked e \<Rightarrow> (Inl e, [StoreValue path ver deletedValue]))"

text \<open>The versions of the living children, as \<open>storeFullNode\<close> collects them.\<close>

fun livingVersions :: "node list \<Rightarrow> error + u32 list" where
  "livingVersions [] = Inr []"
| "livingVersions (child # rest) =
     (if child = Nil_node then livingVersions rest
      else
        (case Version child of
           Inl e \<Rightarrow> Inl e
         | Inr ver \<Rightarrow>
             (case livingVersions rest of
                Inl e \<Rightarrow> Inl e
              | Inr vers \<Rightarrow> Inr (ver # vers))))"

definition storeFullNode ::
    "Writer \<Rightarrow> hex \<Rightarrow> node list \<Rightarrow> u32 \<Rightarrow> hex \<Rightarrow> outcome \<times> storageCall list" where
  "storeFullNode w key children ver path =
     (case livingVersions children of
        Inl e \<Rightarrow> (Panicked e, [])
      | Inr versions \<Rightarrow>
          (case Hex_Compact key of
             Inl e \<Rightarrow> (Panicked e, [])
           | Inr ckey \<Rightarrow> (StoreOutcome w path ver, [Store path ver])))"

fun finalizeIO ::
    "Writer \<Rightarrow> Finalizer \<Rightarrow> node \<Rightarrow> hex \<Rightarrow> bool \<Rightarrow> bool \<Rightarrow> (error + inode) \<times> storageCall list"
  and finalizeFullNodeChildrenIO ::
    "Writer \<Rightarrow> Finalizer \<Rightarrow> node list \<Rightarrow> hex \<Rightarrow> nat \<Rightarrow> bool \<Rightarrow>
     (error + inode list) \<times> storageCall list" where
  "finalizeIO w f Nil_node path batch forceHash =
     (if forceHash then (Inr (IHash emptyRoot), []) else (Inr INil, []))"
| "finalizeIO w f (WithDeletedKeys n ks) path batch forceHash =
     (if batch then
        (case storeDeletedKeys w ks of
           (Inl e, calls) \<Rightarrow> (Inl e, calls)
         | (Inr u, calls) \<Rightarrow>
             (case finalizeIO w f n path batch forceHash of
                (r, calls') \<Rightarrow> (r, calls @ calls')))
      else finalizeIO w f n path batch forceHash)"
| "finalizeIO w f (Leaf key value ver) path batch forceHash =
     (case Hex_Compact key of
        Inl e \<Rightarrow> (Inl e, [])
      | Inr ckey \<Rightarrow>
          (let integrityLeaf = ILeaf ckey value;
               rlp = EncodeToBytes integrityLeaf;
               result = (if HashLength \<le> length rlp \<or> forceHash
                         then Inr (IHash (Keccak256Hash f rlp))
                         else Inr integrityLeaf);
               calls = (if forceHash \<and> batch then [Store path ver] else []);
               stored = (if forceHash \<and> batch then StoreOutcome w path ver else Done)
           in case stored of
                Failed e \<Rightarrow> (Inl e, calls)
              | Panicked e \<Rightarrow> (Inl e, calls)
              | Done \<Rightarrow>
                  if \<not> batch then (result, calls)
                  else
                    (let storagePath = path @ key
                     in if length storagePath \<noteq> 65 then (Inl PanicStoragePathLength, calls)
                        else
                          (case StoreValueOutcome w storagePath ver value of
                             Done \<Rightarrow> (result, calls @ [StoreValue storagePath ver value])
                           | Failed e \<Rightarrow> (Inl e, calls @ [StoreValue storagePath ver value])
                           | Panicked e \<Rightarrow> (Inl e, calls @ [StoreValue storagePath ver value])))))"
| "finalizeIO w f (Full key children ver) path batch forceHash =
     (case finalizeFullNodeChildrenIO w f children (path @ key) 0 batch of
        (Inl e, calls) \<Rightarrow> (Inl e, calls)
      | (Inr integrityChildren, calls) \<Rightarrow>
          (case canonicalFullNodeIntegrityNodeAndRLP f (IFull (integrityChildren @ [INil])) key of
             Inl e \<Rightarrow> (Inl e, calls)
           | Inr (canonicalIntegrityNode, canonicalIntegrityRLP) \<Rightarrow>
               (let result = (if HashLength \<le> length canonicalIntegrityRLP \<or> forceHash
                              then Inr (IHash (Keccak256Hash f canonicalIntegrityRLP))
                              else Inr canonicalIntegrityNode)
                in if batch \<and> (HashLength \<le> length canonicalIntegrityRLP \<or> forceHash)
                   then
                     (case storeFullNode w key children ver path of
                        (Panicked e, calls') \<Rightarrow> (Inl e, calls @ calls')
                      | (Failed e, calls') \<Rightarrow> (result, calls @ calls')
                      | (Done, calls') \<Rightarrow> (result, calls @ calls'))
                   else (result, calls))))"
| "finalizeIO w f (Stored h l ver) path batch forceHash = (Inr (IHash h), [])"
| "finalizeFullNodeChildrenIO w f [] pathToChildren i batch = (Inr [], [])"
| "finalizeFullNodeChildrenIO w f (child # rest) pathToChildren i batch =
     (case finalizeIO w f child (pathToChildren @ [of_nat i]) batch False of
        (Inl e, calls) \<Rightarrow> (Inl e, calls)
      | (Inr integrityChild, calls) \<Rightarrow>
          (case finalizeFullNodeChildrenIO w f rest pathToChildren (Suc i) batch of
             (Inl e, calls') \<Rightarrow> (Inl e, calls @ calls')
           | (Inr integrityRest, calls') \<Rightarrow> (Inr (integrityChild # integrityRest), calls @ calls')))"

definition FinalizeIO ::
    "Writer \<Rightarrow> Finalizer \<Rightarrow> node \<Rightarrow> hex \<Rightarrow> bool \<Rightarrow> bool \<Rightarrow> (error + bytes) \<times> storageCall list" where
  "FinalizeIO w f n path shouldStore forceHash =
     (let opened = (if shouldStore then [NewBatch] else [])
      in case finalizeIO w f n path shouldStore forceHash of
           (Inl e, calls) \<Rightarrow> (Inl e, opened @ calls)
         | (Inr i, calls) \<Rightarrow>
             (let written = (if shouldStore then [BatchWrite] else []);
                  failed = (if shouldStore then WriteBatchError w else None)
              in case failed of
                   Some e \<Rightarrow> (Inl e, opened @ calls @ written)
                 | None \<Rightarrow>
                     (case i of
                        IHash h \<Rightarrow> (Inr h, opened @ calls @ written)
                      | _ \<Rightarrow> (Inl PanicTypeAssertion, opened @ calls @ written))))"

text \<open>\<open>Hash\<close> with the storage calls it makes: \<open>Finalize\<close> without storing, from the root.\<close>

definition HashIO :: "Writer \<Rightarrow> LudicrousTrie \<Rightarrow> (error + bytes) \<times> storageCall list" where
  "HashIO w t = FinalizeIO w (finalizer t) (root t) [] False True"

section \<open>Storage keys\<close>

text \<open>
  \<open>NewKey\<close> of package \<open>turbotrie/internal/storage\<close>. Its \<open>Hex.Keybytes\<close> comes from
  the encoding package, whose copy under \<open>ludicroustrie\<close> is the one modelled above.
  \<open>bytesLess\<close> is the lexicographic order of \<open>bytes.Compare\<close>.
\<close>

definition PutUint32 :: "u32 \<Rightarrow> bytes" where
  "PutUint32 v = [ucast (drop_bit 24 v), ucast (drop_bit 16 v), ucast (drop_bit 8 v), ucast v]"

definition NewKey :: "hex \<Rightarrow> u32 \<Rightarrow> error + bytes" where
  "NewKey path ver =
     (let oddLenKey = (length path \<noteq> 65 \<and> length path mod 2 = 1);
          p = (if oddLenKey then path @ [0] else path);
          metadata = (if oddLenKey then 1 else 0) # PutUint32 ver
      in case Hex_Keybytes p of
           Inl e \<Rightarrow> Inl e
         | Inr kb \<Rightarrow> Inr (kb @ metadata))"

definition Key_path :: "bytes \<Rightarrow> bytes" where
  "Key_path k = take (length k - 5) k"

fun bytesLess :: "bytes \<Rightarrow> bytes \<Rightarrow> bool" where
  "bytesLess [] [] = False"
| "bytesLess [] (b # bs) = True"
| "bytesLess (a # as) [] = False"
| "bytesLess (a # as) (b # bs) = (a < b \<or> (a = b \<and> bytesLess as bs))"

definition bytesLessEq :: "bytes \<Rightarrow> bytes \<Rightarrow> bool" where
  "bytesLessEq a b \<longleftrightarrow> a = b \<or> bytesLess a b"

definition isStrictPrefix :: "hex \<Rightarrow> hex \<Rightarrow> bool" where
  "isStrictPrefix p q \<longleftrightarrow> length p < length q \<and> take (length p) q = p"

text \<open>
  The paths on which \<open>NewKey\<close> returns a key: a sequence of nibbles of any length
  other than 65, or 64 nibbles followed by the terminator 16. (On 65 elements without
  the terminator \<open>Hex.Keybytes\<close> panics, whatever the version.)
\<close>

definition keyPath :: "hex \<Rightarrow> bool" where
  "keyPath p \<longleftrightarrow>
     ((\<forall>x \<in> set p. x < 16) \<and> length p \<noteq> 65) \<or>
     (length p = 65 \<and> last p = 16 \<and> (\<forall>x \<in> set (butlast p). x < 16))"

section \<open>The vector database\<close>

text \<open>
  An open file is the list of its bytes; a nil file pointer is \<open>None\<close>. \<open>ReadAt\<close>
  fills the whole buffer or fails, \<open>Truncate\<close> cuts the file or pads it with zeros,
  and both files are opened for appending.
\<close>

type_synonym u64 = "64 word"

datatype vdbError =
    errClosed
  | errPositionOutOfRange
  | errEOF
  | errInvalidArgument

record VectorDB =
  items :: u64
  index :: "bytes option"
  data :: "bytes option"

definition indexEntryLen :: nat where
  "indexEntryLen = 16"

definition PutUint64 :: "u64 \<Rightarrow> bytes" where
  "PutUint64 v = map (\<lambda>i. ucast (drop_bit (8 * i) v)) [7, 6, 5, 4, 3, 2, 1, 0]"

definition Uint64 :: "bytes \<Rightarrow> u64" where
  "Uint64 b = foldl (\<lambda>acc x. push_bit 8 acc OR ucast x) 0 (take 8 b)"

definition marshallBinary :: "u64 \<times> u64 \<Rightarrow> bytes" where
  "marshallBinary e = PutUint64 (fst e) @ PutUint64 (snd e)"

definition unmarshalBinary :: "bytes \<Rightarrow> u64 \<times> u64" where
  "unmarshalBinary b = (Uint64 (take 8 b), Uint64 (take 8 (drop 8 b)))"

definition File_ReadAt :: "bytes \<Rightarrow> nat \<Rightarrow> int \<Rightarrow> vdbError + bytes" where
  "File_ReadAt file n off =
     (if off < 0 then Inl errInvalidArgument
      else if n = 0 then Inr []
      else if length file < nat off + n then Inl errEOF
      else Inr (take n (drop (nat off) file)))"

definition File_Truncate :: "bytes \<Rightarrow> int \<Rightarrow> vdbError + bytes" where
  "File_Truncate file sz =
     (if sz < 0 then Inl errInvalidArgument
      else Inr (take (nat sz) file @ replicate (nat sz - length file) 0))"

text \<open>\<open>Open\<close> on a directory that does not exist yet: both files are created empty.\<close>

definition OpenNew :: VectorDB where
  "OpenNew = \<lparr>items = 0, index = Some [], data = Some []\<rparr>"

definition checkIsOpen :: "VectorDB \<Rightarrow> vdbError option" where
  "checkIsOpen f = (if index f = None \<or> data f = None then Some errClosed else None)"

definition indexOffset :: "u64 \<Rightarrow> int" where
  "indexOffset pos = sint (pos * of_nat indexEntryLen)"

definition indexEntry :: "VectorDB \<Rightarrow> u64 \<Rightarrow> vdbError + u64 \<times> u64" where
  "indexEntry f pos =
     (case File_ReadAt (sliceOf (index f)) indexEntryLen (indexOffset pos) of
        Inl err \<Rightarrow> Inl err
      | Inr b \<Rightarrow> Inr (unmarshalBinary b))"

definition VectorDB_Get :: "VectorDB \<Rightarrow> u64 \<Rightarrow> vdbError + bytes" where
  "VectorDB_Get f pos =
     (case checkIsOpen f of
        Some err \<Rightarrow> Inl err
      | None \<Rightarrow>
          if items f \<le> pos then Inl errPositionOutOfRange
          else
            (case indexEntry f pos of
               Inl err \<Rightarrow> Inl err
             | Inr (offset, len) \<Rightarrow> File_ReadAt (sliceOf (data f)) (unat len) (sint offset)))"

definition VectorDB_Append :: "VectorDB \<Rightarrow> bytes \<Rightarrow> vdbError option \<times> VectorDB" where
  "VectorDB_Append f b =
     (case checkIsOpen f of
        Some err \<Rightarrow> (Some err, f)
      | None \<Rightarrow>
          (let offset = length (sliceOf (data f));
               entry = (of_nat offset, of_nat (length b))
           in (None, f\<lparr>data := Some (sliceOf (data f) @ b),
                        index := Some (sliceOf (index f) @ marshallBinary entry),
                        items := items f + 1\<rparr>)))"

definition VectorDB_Items :: "VectorDB \<Rightarrow> u64" where
  "VectorDB_Items f = items f"

definition VectorDB_Truncate :: "VectorDB \<Rightarrow> u64 \<Rightarrow> vdbError option \<times> VectorDB" where
  "VectorDB_Truncate f len =
     (case checkIsOpen f of
        Some err \<Rightarrow> (Some err, f)
      | None \<Rightarrow>
          if items f \<le> len then (Some errPositionOutOfRange, f)
          else
            (let f1 = f\<lparr>items := len\<rparr>;
                 newIndexFileSize = len * of_nat indexEntryLen
             in case File_Truncate (sliceOf (index f1)) (sint newIndexFileSize) of
                  Inl err \<Rightarrow> (Some err, f1)
                | Inr idx \<Rightarrow>
                    (let f2 = f1\<lparr>index := Some idx\<rparr>
                     in case indexEntry f2 len of
                          Inl err \<Rightarrow> (Some err, f2)
                        | Inr (offset, entryLength) \<Rightarrow>
                            (let newDataFileSize = offset + entryLength
                             in case File_Truncate (sliceOf (index f2)) (sint newDataFileSize) of
                                  Inl err \<Rightarrow> (Some err, f2)
                                | Inr idx' \<Rightarrow> (None, f2\<lparr>index := Some idx'\<rparr>)))))"

section \<open>Auxiliary notions for the statements\<close>

text \<open>
  The definitions of this section are not part of the program. They name the inputs
  the properties are about, the packed form of a nibble sequence, and the concrete
  scenarios that are evaluated.
\<close>

definition validHex :: "hex \<Rightarrow> bool" where
  "validHex h \<longleftrightarrow> (\<forall>x \<in> set (butlast h). x < 16) \<and> (h \<noteq> [] \<longrightarrow> last h \<le> 16)"

fun packNibbles :: "hex \<Rightarrow> bytes" where
  "packNibbles [] = []"
| "packNibbles [a] = []"
| "packNibbles (a # b # rest) = (push_bit 4 a OR b) # packNibbles rest"

definition padNibbles :: "hex \<Rightarrow> hex" where
  "padNibbles p = (if odd (length p) then p @ [0] else p)"

definition pathBytes :: "hex \<Rightarrow> bytes" where
  "pathBytes p = (if length p = 65 then packNibbles (butlast p) else packNibbles (padNibbles p))"

definition oddFlag :: "hex \<Rightarrow> byte" where
  "oddFlag p = (if length p \<noteq> 65 \<and> odd (length p) then 1 else 0)"

definition scenarioKey :: "byte \<Rightarrow> bytes option" where
  "scenarioKey b = Some (b # replicate 31 0)"

definition failingCollection :: Collection where
  "failingCollection =
     \<lparr>LoadNode = (\<lambda>p v. Inl ErrStorage),
      LoadLeafNodeWithExactPrefixAndVersion = (\<lambda>p v. Inl ErrStorage),
      LoadLatestValueNodeWithExactPath = (\<lambda>p v. Inl ErrStorage)\<rparr>"

definition constantHash :: Finalizer where
  "constantHash = \<lparr>Keccak256Hash = (\<lambda>b. replicate 32 0)\<rparr>"

definition emptyTrie :: LudicrousTrie where
  "emptyTrie = NewEmptyLudicrousTrie constantHash failingCollection 0"

definition threeKeys :: LudicrousTrie where
  "threeKeys =
     (let t1 = snd (Update emptyTrie (scenarioKey 0x00) (Some [0]));
          t2 = snd (Update t1 (scenarioKey 0x10) (Some [1]))
      in snd (Update t2 (scenarioKey 0x20) (Some [2])))"

definition threeItems :: VectorDB where
  "threeItems =
     (let f1 = snd (VectorDB_Append OpenNew [1]);
          f2 = snd (VectorDB_Append f1 [2, 2])
      in snd (VectorDB_Append f2 [3, 3, 3]))"

text \<open>
  The shape of the tries that the engine builds in memory. A valid path is the hex
  form of a 32-byte key. \<open>lookup\<close> reads a subtree at a path relative to it, without
  the storage. \<open>wfNode pre n\<close> says that \<open>n\<close> is a non-empty subtree that sits below
  the absolute prefix \<open>pre\<close>: paths have the right length, radix nibbles are below 16,
  every branch has sixteen slots of which at least two are living, no node is a stored
  placeholder, and every tombstone of an overlay is a valid path below \<open>pre\<close> that the
  overlaid subtree does not hold.
\<close>

definition validPath :: "hex \<Rightarrow> bool" where
  "validPath path \<longleftrightarrow> length path = 65 \<and> (\<forall>i<64. path ! i < 16) \<and> path ! 64 = 16"

definition validTail :: "hex \<Rightarrow> bool" where
  "validTail k \<longleftrightarrow> k \<noteq> [] \<and> last k = 16 \<and> (\<forall>x \<in> set (butlast k). x < 16)"

definition livingChildren :: "node list \<Rightarrow> nat" where
  "livingChildren cs = length (filter (\<lambda>c. c \<noteq> Nil_node) cs)"

function lookup :: "node \<Rightarrow> hex \<Rightarrow> bytes option" where
  "lookup Nil_node p = None"
| "lookup (Leaf k v ver) p = (if p = k then Some v else None)"
| "lookup (Full k cs ver) p =
     (if take (length k) p = k \<and> length k < length p \<and> unat (p ! length k) < length cs
      then lookup (cs ! unat (p ! length k)) (drop (length k + 1) p)
      else None)"
| "lookup (WithDeletedKeys n ks) p = lookup n p"
| "lookup (Stored h l ver) p = None"
  by pat_completeness auto
termination
  by (relation "measure (\<lambda>(n, p). size n)")
     (auto simp: less_Suc_eq_le intro!: size_list_estimation')

fun wfNode :: "hex \<Rightarrow> node \<Rightarrow> bool"
  and wfChildren :: "hex \<Rightarrow> nat \<Rightarrow> node list \<Rightarrow> bool" where
  "wfNode pre Nil_node = False"
| "wfNode pre (Leaf k v ver) = (length pre + length k = 65 \<and> validTail k \<and> v \<noteq> deletedValue)"
| "wfNode pre (Full k cs ver) =
     (length cs = NumChildren \<and> (\<forall>x \<in> set k. x < 16) \<and> length pre + length k < 64 \<and>
      2 \<le> livingChildren cs \<and> wfChildren (pre @ k) 0 cs)"
| "wfNode pre (WithDeletedKeys n ks) =
     (wfNode pre n \<and>
      (\<forall>(p, v) \<in> set ks. validPath p \<and> take (length pre) p = pre \<and>
                          lookup n (drop (length pre) p) = None))"
| "wfNode pre (Stored h l ver) = False"
| "wfChildren pre r [] = True"
| "wfChildren pre r (c # cs) =
     ((c = Nil_node \<or> wfNode (pre @ [of_nat r]) c) \<and> wfChildren pre (Suc r) cs)"

definition wfRoot :: "node \<Rightarrow> bool" where
  "wfRoot r \<longleftrightarrow>
     r = Nil_node \<or> wfNode [] r \<or>
     (\<exists>ks. r = WithDeletedKeys Nil_node ks \<and> (\<forall>(p, v) \<in> set ks. validPath p))"

text \<open>
  Tries that are built in memory: a sequence of calls of \<open>Update\<close> and \<open>Remove\<close>,
  with any arguments, applied to a trie. \<open>branchesCanonical\<close> says that every branch
  of a tree, at any depth and under any overlay, has at least two living children.
\<close>

datatype operation = OpUpdate "bytes option" "bytes option" | OpRemove "bytes option"

fun applyOp :: "LudicrousTrie \<Rightarrow> operation \<Rightarrow> LudicrousTrie" where
  "applyOp t (OpUpdate k v) = snd (Update t k v)"
| "applyOp t (OpRemove k) = snd (Remove t k)"

definition applyOps :: "LudicrousTrie \<Rightarrow> operation list \<Rightarrow> LudicrousTrie" where
  "applyOps t ops = foldl applyOp t ops"





section \<open>The reference trie\<close>

text \<open>
  Modelled from the spec: the reference hexary Merkle-Patricia trie is not in the
  sources. It is the trie of the Ethereum Yellow Paper (appendix D) over a list of
  pairs of a key, given as its sequence of nibbles, and a value; the keys are distinct
  and have one length, so no key ends at a branch and the value slot of a branch is
  empty. \<open>hexPrefix\<close> is the hex-prefix encoding of a nibble sequence with the flag
  that tells a leaf from an extension. The node of a set of pairs is a leaf for one
  pair, an extension when the keys share a prefix, and otherwise a branch of the
  sixteen sub-tries by the first nibble; a node is referred to from its parent by its
  structure when its encoding is shorter than 32 bytes and by the hash of its encoding
  otherwise (\<open>capNode\<close>). The root hash is the hash of the encoding of the root
  node, and for no pair the hash of the encoding of the empty string, which is the
  constant \<open>emptyRoot\<close>. The encoding and the hash function are those of the
  finalizer.
\<close>

fun pairNibbles :: "hex \<Rightarrow> bytes" where
  "pairNibbles [] = []"
| "pairNibbles [a] = []"
| "pairNibbles (a # b # rest) = (16 * a + b) # pairNibbles rest"

definition hexPrefix :: "hex \<Rightarrow> bool \<Rightarrow> bytes" where
  "hexPrefix x t =
     (let f = (if t then 2 else 0 :: byte)
      in if even (length x) then (16 * f) # pairNibbles x
         else (16 * (f + 1) + hd x) # pairNibbles (tl x))"

fun commonPrefix :: "hex \<Rightarrow> hex \<Rightarrow> hex" where
  "commonPrefix [] ys = []"
| "commonPrefix (x # xs) [] = []"
| "commonPrefix (x # xs) (y # ys) = (if x = y then x # commonPrefix xs ys else [])"

fun commonPrefixAll :: "hex list \<Rightarrow> hex" where
  "commonPrefixAll [] = []"
| "commonPrefixAll [k] = k"
| "commonPrefixAll (k # k' # ks) = commonPrefix k (commonPrefixAll (k' # ks))"

definition subTrie :: "(hex \<times> bytes) list \<Rightarrow> nat \<Rightarrow> (hex \<times> bytes) list" where
  "subTrie J i = map (\<lambda>(k, v). (tl k, v)) (filter (\<lambda>(k, v). k \<noteq> [] \<and> hd k = of_nat i) J)"

definition capNode :: "Finalizer \<Rightarrow> inode \<Rightarrow> inode" where
  "capNode f n =
     (let enc = EncodeToBytes n
      in if 32 \<le> length enc then IHash (Keccak256Hash f enc) else n)"

definition keyLengths :: "(hex \<times> bytes) list \<Rightarrow> nat" where
  "keyLengths J = sum_list (map (\<lambda>(k, v). length k) J)"

function refNode :: "Finalizer \<Rightarrow> (hex \<times> bytes) list \<Rightarrow> inode" where
  "refNode f J =
     (if J = [] then INil
      else if length J = 1 then ILeaf (hexPrefix (fst (hd J)) True) (snd (hd J))
      else
        (let p = commonPrefixAll (map fst J);
             J' = map (\<lambda>(k, v). (drop (length p) k, v)) J;
             branch = IFull (map (\<lambda>i. capNode f (refNode f (subTrie J' i))) [0..<16] @ [INil])
         in if p = [] then branch else IExtension (hexPrefix p False) (capNode f branch)))"
  by pat_completeness auto
termination
proof (relation "measure (\<lambda>(f, J). length J + keyLengths J)")
  show "wf (measure (\<lambda>(f, J). length J + keyLengths J))" by simp
next
  fix f :: Finalizer and J :: "(hex \<times> bytes) list" and p J' i
  assume ne: "J \<noteq> []" and J': "J' = map (\<lambda>(k, v). (drop (length p) k, v)) J"
  have a: "length (subTrie K i) + keyLengths (subTrie K i) \<le> keyLengths K" for K
    unfolding subTrie_def keyLengths_def
    by (induction K) (auto split: prod.splits simp: neq_Nil_conv)
  have b: "keyLengths J' \<le> keyLengths J"
    unfolding J' keyLengths_def by (induction J) (auto split: prod.splits)
  have "0 < length J" using ne by simp
  then have "length (subTrie J' i) + keyLengths (subTrie J' i) < length J + keyLengths J"
    using a[of J'] b by arith
  then show "((f, subTrie J' i), (f, J)) \<in> measure (\<lambda>(f, J). length J + keyLengths J)"
    by simp
qed

definition refRoot :: "Finalizer \<Rightarrow> (hex \<times> bytes) list \<Rightarrow> bytes" where
  "refRoot f J = (if J = [] then emptyRoot else Keccak256Hash f (EncodeToBytes (refNode f J)))"

text \<open>
  The nibbles of a key, and the pairs that an in-memory tree holds, each with the
  nibbles of its key relative to the tree, in the order of the tree.
\<close>

definition keyNibbles :: "bytes \<Rightarrow> hex" where
  "keyNibbles kb = concat (map (\<lambda>b. [b div 16, b mod 16]) kb)"

fun contents :: "node \<Rightarrow> (hex \<times> bytes) list"
  and contentsChildren :: "nat \<Rightarrow> node list \<Rightarrow> (hex \<times> bytes) list" where
  "contents Nil_node = []"
| "contents (Leaf k v ver) = [(butlast k, v)]"
| "contents (Full k cs ver) = map (\<lambda>(q, v). (k @ q, v)) (contentsChildren 0 cs)"
| "contents (WithDeletedKeys n ks) = contents n"
| "contents (Stored h l ver) = []"
| "contentsChildren i [] = []"
| "contentsChildren i (c # cs) =
     map (\<lambda>(q, v). (of_nat i # q, v)) (contents c) @ contentsChildren (Suc i) cs"

text \<open>
  The lists of pairs that are inserted: the keys are distinct and have 32 bytes, the
  values are not empty and not the reserved value. \<open>insertAll\<close> is the sequence of
  calls of \<open>Update\<close> that inserts them, and \<open>referencePairs\<close> what the reference trie
  is built over.
\<close>

definition validPairs :: "(bytes \<times> bytes) list \<Rightarrow> bool" where
  "validPairs kvs \<longleftrightarrow>
     distinct (map fst kvs) \<and>
     list_all (\<lambda>(k, v). length k = 32 \<and> v \<noteq> [] \<and> v \<noteq> deletedValue) kvs"

definition insertAll :: "(bytes \<times> bytes) list \<Rightarrow> operation list" where
  "insertAll kvs = map (\<lambda>(k, v). OpUpdate (Some k) (Some v)) kvs"

definition referencePairs :: "(bytes \<times> bytes) list \<Rightarrow> (hex \<times> bytes) list" where
  "referencePairs kvs = map (\<lambda>(k, v). (keyNibbles k, v)) kvs"

definition scenarioPairs :: "(bytes \<times> bytes) list" where
  "scenarioPairs = [(0x00 # replicate 31 0, [1]), (0x10 # replicate 31 0, [2]), (0x11 # replicate 31 0, [3])]"

section \<open>Properties of the encodings\<close>

lemma lt16: "(x::8 word) < 16 \<longleftrightarrow> take_bit 4 x = x"
  using less_mask_eq[of x 4] and_mask_less'[of 4 x]
  by (auto simp: take_bit_eq_mask mask_eq_exp_minus_1)

lemma nib_hi: "a < 16 \<Longrightarrow> b < 16 \<Longrightarrow> (push_bit 4 a OR b) div 16 = (a::8 word)"
proof -
  assume a: "a < 16" and b: "b < 16"
  have ta: "take_bit 4 a = a" and tb: "take_bit 4 b = b" using a b by (simp_all add: lt16)
  have "drop_bit 4 (push_bit 4 a OR b) = a"
    apply (rule bit_eqI)
    apply (subst ta[symmetric], subst tb[symmetric])
    apply (auto simp: bit_simps)
    apply (metis ta bit_take_bit_iff)
    done
  then show ?thesis by (simp add: drop_bit_eq_div)
qed

lemma nib_lo: "a < 16 \<Longrightarrow> b < 16 \<Longrightarrow> (push_bit 4 a OR b) mod 16 = (b::8 word)"
proof -
  assume a: "a < 16" and b: "b < 16"
  have tb: "take_bit 4 b = b" using b by (simp_all add: lt16)
  have "take_bit 4 (push_bit 4 a OR b) = b"
    apply (rule bit_eqI)
    apply (subst (2) tb[symmetric])
    apply (auto simp: bit_simps)
    done
  then show ?thesis by (simp add: take_bit_eq_mod)
qed

lemma decodeNibbles_even:
  "even (length xs) \<Longrightarrow> decodeNibbles xs = Inr (packNibbles xs)"
  by (induction xs rule: decodeNibbles.induct) auto

lemma unpack_pack:
  "even (length xs) \<Longrightarrow> \<forall>x \<in> set xs. x < 16 \<Longrightarrow>
   concat (map (\<lambda>b. [b div 16, b mod 16]) (packNibbles xs)) = xs"
  by (induction xs rule: decodeNibbles.induct) (auto simp: nib_hi nib_lo)

lemma validHex_cases:
  assumes "validHex h"
  obtains (noterm) "\<not> HasTerm h" "\<forall>x \<in> set h. x < 16"
        | (withterm) body where "h = body @ [16]" "\<forall>x \<in> set body. x < 16"
proof (cases "h = []")
  case True
  then show ?thesis using noterm by (simp add: HasTerm_def)
next
  case False
  then have h: "h = butlast h @ [last h]" by simp
  show ?thesis
  proof (cases "last h = 16")
    case True
    with h assms show ?thesis using withterm[of "butlast h"]
      by (metis validHex_def)
  next
    case l: False
    from assms False have "last h \<le> 16" by (simp add: validHex_def)
    with l have "last h < 16" by simp
    moreover have "set h = set (butlast h) \<union> {last h}"
      by (subst h) simp
    ultimately have "\<forall>x \<in> set h. x < 16" using assms by (auto simp: validHex_def)
    then show ?thesis using noterm l by (simp add: HasTerm_def)
  qed
qed

lemma Keybytes_Hex_Cons:
  "Keybytes_Hex (f # bs) = (f div 16) # (f mod 16) # concat (map (\<lambda>b. [b div 16, b mod 16]) bs) @ [16]"
  by (simp add: Keybytes_Hex_def)

lemma flag_odd_noterm:
  "x < 16 \<Longrightarrow> (16 OR x) div 16 = (1::byte)"
  "x < 16 \<Longrightarrow> (16 OR x) mod 16 = (x::byte)"
  using nib_hi[of 1 x] nib_lo[of 1 x] by simp_all

lemma flag_odd_term:
  "x < 16 \<Longrightarrow> (32 OR 16 OR x) div 16 = (3::byte)"
  "x < 16 \<Longrightarrow> (32 OR 16 OR x) mod 16 = (x::byte)"
proof -
  have "(32::byte) OR 16 = push_bit 4 3" by simp
  then have e: "(32 OR 16 OR x) = (push_bit 4 3 OR x :: byte)"
    by (metis or.assoc)
  show "x < 16 \<Longrightarrow> (32 OR 16 OR x) div 16 = (3::byte)"
    unfolding e using nib_hi[of 3 x] by simp
  show "x < 16 \<Longrightarrow> (32 OR 16 OR x) mod 16 = (x::byte)"
    unfolding e using nib_lo[of 3 x] by simp
qed

lemma roundtrip_body:
  assumes nib: "\<forall>x \<in> set body. x < 16" and nt: "\<not> HasTerm body"
  shows "\<exists>c. Hex_Compact body = Inr c \<and> Compact_Hex c = Inr body"
proof (cases "even (length body)")
  case True
  then show ?thesis using nib nt
    by (simp add: Hex_Compact_def Compact_Hex_def decodeNibbles_even Keybytes_Hex_Cons unpack_pack)
next
  case False
  then obtain x rest where b: "body = x # rest" by (cases body) auto
  with False have ev: "even (length rest)" by simp
  from nib b have x: "x < 16" and r: "\<forall>y \<in> set rest. y < 16" by auto
  show ?thesis using False nt ev
    by (simp add: b Hex_Compact_def Compact_Hex_def decodeNibbles_even Keybytes_Hex_Cons
        unpack_pack[OF ev r] flag_odd_noterm[OF x])
qed

lemma roundtrip_term:
  assumes nib: "\<forall>x \<in> set body. x < 16"
  shows "\<exists>c. Hex_Compact (body @ [16]) = Inr c \<and> Compact_Hex c = Inr (body @ [16])"
proof (cases "even (length body)")
  case True
  then show ?thesis using nib
    by (simp add: Hex_Compact_def Compact_Hex_def HasTerm_def decodeNibbles_even Keybytes_Hex_Cons unpack_pack)
next
  case False
  then obtain x rest where b: "body = x # rest" by (cases body) auto
  with False have ev: "even (length rest)" by simp
  from nib b have x: "x < 16" and r: "\<forall>y \<in> set rest. y < 16" by auto
  show ?thesis using False ev
    by (simp add: b Hex_Compact_def Compact_Hex_def HasTerm_def decodeNibbles_even Keybytes_Hex_Cons
        unpack_pack[OF ev r] flag_odd_term[OF x])
qed

text \<open>
  Claim C10: for every hex sequence whose elements are nibbles (each below 16), except
  for an optional trailing terminator 16, converting to the compact encoding and back
  succeeds and returns the sequence itself.
\<close>

theorem compact_hex_roundtrip:
  assumes "validHex h"
  shows "\<exists>c. Hex_Compact h = Inr c \<and> Compact_Hex c = Inr h"
  using assms
proof (cases rule: validHex_cases)
  case noterm
  then show ?thesis using roundtrip_body by blast
next
  case (withterm body)
  then show ?thesis using roundtrip_term by blast
qed

theorem compact_hex_roundtrip_witness:
  "validHex [1, 2, 3, 16] \<and> (\<exists>c. Hex_Compact [1, 2, 3, 16] = Inr c \<and> Compact_Hex c = Inr [1, 2, 3, 16])"
proof -
  have v: "validHex [1, 2, 3, 16]" by (simp add: validHex_def)
  from compact_hex_roundtrip[OF v] v show ?thesis by blast
qed

section \<open>The shape of in-memory tries\<close>

declare get.simps [simp del] update.simps [simp del] remove.simps [simp del]

lemma PrefixLen_le: "PrefixLen a b \<le> length a" "PrefixLen a b \<le> length b"
  by (induction a b rule: PrefixLen.induct) auto

lemma PrefixLen_Nil2 [simp]: "PrefixLen a [] = 0"
  by (cases a) simp_all

lemma PrefixLen_commute: "PrefixLen a b = PrefixLen b a"
  by (induction a b rule: PrefixLen.induct) auto

lemma PrefixLen_take: "take (PrefixLen a b) a = take (PrefixLen a b) b"
  by (induction a b rule: PrefixLen.induct) auto

lemma PrefixLen_mismatch:
  "PrefixLen a b < length a \<Longrightarrow> PrefixLen a b < length b \<Longrightarrow> a ! PrefixLen a b \<noteq> b ! PrefixLen a b"
  by (induction a b rule: PrefixLen.induct) auto

lemma PrefixLen_full: "PrefixLen a b = length a \<longleftrightarrow> take (length a) b = a"
  by (induction a b rule: PrefixLen.induct) auto

lemma prefixContainedIn_iff:
  "prefixContainedIn k path i \<longleftrightarrow> take (length k) (drop i path) = k"
  by (simp add: prefixContainedIn_def PrefixLen_full)

lemma validPath_length [simp]: "validPath path \<Longrightarrow> length path = 65"
  by (simp add: validPath_def)

lemma validPath_nibble: "validPath path \<Longrightarrow> i < 64 \<Longrightarrow> path ! i < 16"
  by (simp add: validPath_def)

lemma validPath_term: "validPath path \<Longrightarrow> path ! 64 = 16"
  by (simp add: validPath_def)

lemma validTail_drop:
  assumes "validPath path" "i \<le> 64"
  shows "validTail (drop i path)"
proof -
  have l: "length path = 65" using assms by simp
  have ne: "drop i path \<noteq> []" using l assms by simp
  have "last (drop i path) = path ! 64" using l assms
    by (simp add: last_drop last_conv_nth)
  moreover have "\<forall>x \<in> set (butlast (drop i path)). x < 16"
  proof
    fix x assume "x \<in> set (butlast (drop i path))"
    then obtain j where j: "j < length (butlast (drop i path))" "x = butlast (drop i path) ! j"
      by (metis in_set_conv_nth)
    then have "j < 64 - i" using l by simp
    then have "x = path ! (i + j)" using j l by (simp add: nth_butlast)
    then show "x < 16" using validPath_nibble[OF assms(1), of "i + j"] \<open>j < 64 - i\<close> by simp
  qed
  ultimately show ?thesis using ne assms by (simp add: validTail_def validPath_term)
qed

lemma wfChildren_iff:
  "wfChildren pre r cs \<longleftrightarrow>
     (\<forall>i < length cs. cs ! i = Nil_node \<or> wfNode (pre @ [of_nat (r + i)]) (cs ! i))"
proof (induction cs arbitrary: r)
  case Nil
  then show ?case by simp
next
  case (Cons c cs)
  show ?case
    by (simp add: Cons.IH All_less_Suc2 del: of_nat_add of_nat_Suc)
qed

lemma wfNode_isLive: "wfNode pre n \<Longrightarrow> isLive n"
  by (induction n) auto

lemma wfNode_not_Nil [simp]: "wfNode pre n \<Longrightarrow> n \<noteq> Nil_node"
  by auto


lemma get_not_contained:
  "isLive n \<Longrightarrow> \<not> PrefixContainedIn n path i \<Longrightarrow> i \<le> length path \<Longrightarrow> get t n path i = NotFound"
  by (subst get.simps) simp

lemma get_Leaf:
  "i \<le> length path \<Longrightarrow>
   get t (Leaf k v ver) path i = (if prefixContainedIn k path i then getValue (Some v) else NotFound)"
  by (subst get.simps) simp

lemma get_Full:
  "i \<le> length path \<Longrightarrow>
   get t (Full k cs ver) path i =
     (if \<not> prefixContainedIn k path i then NotFound
      else if length path \<le> i + length k then GetFailed PanicIndexOutOfRange
      else if length cs \<le> unat (path ! (i + length k)) then GetFailed PanicIndexOutOfRange
      else get t (cs ! unat (path ! (i + length k))) path (i + length k + 1))"
  by (subst get.simps) (simp add: Let_def)

lemma get_WDK:
  "i \<le> length path \<Longrightarrow> isLive n \<Longrightarrow>
   get t (WithDeletedKeys n ks) path i =
     (if \<not> PrefixContainedIn n path i then NotFound
      else if KeySet_Contains ks path then NotFound
      else get t n path i)"
  by (subst get.simps) simp

lemma KeySet_Contains_iff: "KeySet_Contains ks p \<longleftrightarrow> p \<in> fst ` set ks"
  by (simp add: KeySet_Contains_def map_of_eq_None_iff)

lemma unat_nibble: "(x::byte) < 16 \<Longrightarrow> unat x < 16"
  by (simp add: word_less_nat_alt)

lemma take_extend:
  assumes "take (length pre) path = pre" "take (length k) (drop (length pre) path) = k"
    "length pre + length k < length path"
  shows "take (length (pre @ k @ [path ! (length pre + length k)])) path
         = pre @ k @ [path ! (length pre + length k)]"
proof -
  have "take (length pre + length k) path = pre @ k"
    using assms by (simp add: take_add)
  then show ?thesis using assms(3)
    by (simp add: take_Suc_conv_app_nth)
qed

lemma get_lookup:
  assumes vp: "validPath path"
  shows "wfNode pre n \<Longrightarrow> take (length pre) path = pre \<Longrightarrow>
         get t n path (length pre) =
           (case lookup n (drop (length pre) path) of None \<Rightarrow> NotFound | Some v \<Rightarrow> Found (Some v))"
proof (induction n arbitrary: pre)
  case Nil_node
  then show ?case by simp
next
  case (Leaf k v ver)
  then have len: "length pre + length k = 65" and v: "v \<noteq> deletedValue" by auto
  have "take (length k) (drop (length pre) path) = drop (length pre) path"
    using len vp by simp
  then show ?case using len vp v
    by (auto simp: get_Leaf prefixContainedIn_iff getValue_def wasDeleted_def)
next
  case (Full k cs ver)
  from Full.prems have cs: "length cs = 16" and len: "length pre + length k < 64"
    and wc: "wfChildren (pre @ k) 0 cs"
    by (auto simp: NumChildren_def)
  show ?case
  proof (cases "prefixContainedIn k path (length pre)")
    case False
    then show ?thesis using vp len
      by (auto simp: get_Full prefixContainedIn_iff)
  next
    case True
    then have tk: "take (length k) (drop (length pre) path) = k"
      by (simp add: prefixContainedIn_iff)
    define r where "r = path ! (length pre + length k)"
    have r16: "r < 16" using validPath_nibble[OF vp, of "length pre + length k"] len by (simp add: r_def)
    then have ur: "unat r < 16" by (rule unat_nibble)
    have pre': "take (length (pre @ k @ [r])) path = pre @ k @ [r]"
      unfolding r_def using take_extend[OF Full.prems(2) tk] vp len by simp
    have g: "get t (Full k cs ver) path (length pre) = get t (cs ! unat r) path (length pre + length k + 1)"
      using vp len True ur cs by (simp add: get_Full r_def)
    have lk: "length k < 65 - length pre" using len by arith
    have l: "lookup (Full k cs ver) (drop (length pre) path)
             = lookup (cs ! unat r) (drop (length pre + length k + 1) path)"
      using vp lk tk ur cs by (simp add: r_def add.commute)
    show ?thesis
    proof (cases "cs ! unat r = Nil_node")
      case True
      then show ?thesis using g l vp len by (simp add: get_not_contained)
    next
      case False
      with wc ur cs have "wfNode (pre @ k @ [r]) (cs ! unat r)"
        by (auto simp: wfChildren_iff)
      moreover have "cs ! unat r \<in> set cs" using ur cs by simp
      ultimately have "get t (cs ! unat r) path (length (pre @ k @ [r])) =
          (case lookup (cs ! unat r) (drop (length (pre @ k @ [r])) path) of
             None \<Rightarrow> NotFound | Some v \<Rightarrow> Found (Some v))"
        using Full.IH pre' by blast
      then show ?thesis using g l by simp
    qed
  qed
next
  case (Stored h l ver)
  then show ?case by simp
next
  case (WithDeletedKeys n ks)
  then have wn: "wfNode pre n" by simp
  have live: "isLive n" using wn by (rule wfNode_isLive)
  have ih: "get t n path (length pre) =
      (case lookup n (drop (length pre) path) of None \<Rightarrow> NotFound | Some v \<Rightarrow> Found (Some v))"
    using WithDeletedKeys.IH[OF wn WithDeletedKeys.prems(2)] .
  have le: "length pre \<le> length path" using WithDeletedKeys.prems(2)
    by (metis length_take min.cobounded1)
  show ?case
  proof (cases "KeySet_Contains ks path")
    case True
    then obtain v where "(path, v) \<in> set ks" by (auto simp: KeySet_Contains_iff)
    with WithDeletedKeys.prems have "lookup n (drop (length pre) path) = None" by auto
    then show ?thesis using True le live by (simp add: get_WDK)
  next
    case False
    then show ?thesis using le live ih
      by (auto simp: get_WDK get_not_contained)
  qed
qed


lemma validTail_nth:
  assumes "validTail k" "i < length k - 1"
  shows "k ! i < 16"
proof -
  have "butlast k ! i = k ! i" using assms(2) by (simp add: nth_butlast)
  moreover have "butlast k ! i \<in> set (butlast k)" using assms(2) by simp
  ultimately show ?thesis using assms(1) by (auto simp: validTail_def)
qed

lemma validTail_last: "validTail k \<Longrightarrow> k ! (length k - 1) = 16"
  by (auto simp: validTail_def last_conv_nth)

lemma validTail_dropI: "validTail k \<Longrightarrow> j < length k \<Longrightarrow> validTail (drop j k)"
  by (auto simp: validTail_def butlast_drop dest: in_set_dropD)

lemma eq_append_Cons_iff:
  "(q = c @ x # r) \<longleftrightarrow>
   (take (length c) q = c \<and> length c < length q \<and> q ! length c = x \<and> drop (Suc (length c)) q = r)"
proof
  assume "q = c @ x # r"
  then show "take (length c) q = c \<and> length c < length q \<and> q ! length c = x \<and> drop (Suc (length c)) q = r"
    by simp
next
  assume h: "take (length c) q = c \<and> length c < length q \<and> q ! length c = x \<and> drop (Suc (length c)) q = r"
  then have "q = take (length c) q @ q ! length c # drop (Suc (length c)) q"
    using id_take_nth_drop by blast
  then show "q = c @ x # r" using h by simp
qed

lemma PrefixLen_decompose:
  assumes "PrefixLen a b < length a" "PrefixLen a b < length b"
  obtains c x y ra rb where "a = c @ x # ra" "b = c @ y # rb" "x \<noteq> y" "length c = PrefixLen a b"
proof -
  let ?m = "PrefixLen a b"
  have "a = take ?m a @ a ! ?m # drop (Suc ?m) a" using assms(1) by (rule id_take_nth_drop)
  moreover have "b = take ?m a @ b ! ?m # drop (Suc ?m) b"
    using id_take_nth_drop[OF assms(2)] PrefixLen_take[of a b] by simp
  moreover have "a ! ?m \<noteq> b ! ?m" using assms by (rule PrefixLen_mismatch)
  moreover have "length (take ?m a) = ?m" using assms(1) by simp
  ultimately show ?thesis using that by blast
qed

lemma PrefixLen_append_same [simp]: "PrefixLen (c @ a) (c @ b) = length c + PrefixLen a b"
  by (induction c) auto

lemma PrefixLen_Cons_neq [simp]: "x \<noteq> y \<Longrightarrow> PrefixLen (x # a) (y # b) = 0"
  by simp

lemma livingChildren_two:
  assumes "i1 < NumChildren" "i2 < NumChildren" "i1 \<noteq> i2" "c1 \<noteq> Nil_node" "c2 \<noteq> Nil_node"
  shows "livingChildren (((replicate NumChildren Nil_node)[i1 := c1])[i2 := c2]) = 2"
proof -
  let ?cs = "((replicate NumChildren Nil_node)[i1 := c1])[i2 := c2]"
  have len: "length ?cs = NumChildren" by simp
  have "{i. i < length ?cs \<and> ?cs ! i \<noteq> Nil_node} = {i1, i2}"
    using assms by (auto simp: nth_list_update)
  moreover have "livingChildren ?cs = card {i. i < length ?cs \<and> ?cs ! i \<noteq> Nil_node}"
    unfolding livingChildren_def by (rule length_filter_conv_card)
  ultimately show ?thesis using assms(3) by simp
qed

lemma lookup_Full_Cons:
  "lookup (Full (x # k) cs ver) q =
     (case q of [] \<Rightarrow> None | y # q' \<Rightarrow> if y = x then lookup (Full k cs ver') q' else None)"
  by (cases q) auto

lemma lookup_Full_append:
  "lookup (Full (a @ k) cs ver) q =
     (if take (length a) q = a \<and> length a \<le> length q then lookup (Full k cs ver') (drop (length a) q)
      else None)"
proof (induction a arbitrary: q)
  case Nil
  show ?case by simp
next
  case (Cons x a)
  show ?case
  proof (cases q)
    case Nil
    then show ?thesis by simp
  next
    case (Cons y q')
    show ?thesis
      unfolding Cons append_Cons lookup_Full_Cons[where ver'=ver']
      using Cons.IH[of q'] by simp
  qed
qed

lemma lookup_Leaf_append:
  "lookup (Leaf (a @ k) v ver) q =
     (if take (length a) q = a \<and> length a \<le> length q then lookup (Leaf k v ver') (drop (length a) q)
      else None)"
proof -
  have "q = a @ k \<longleftrightarrow> take (length a) q = a \<and> length a \<le> length q \<and> drop (length a) q = k"
    by (metis append_eq_conv_conj length_append le_add1)
  then show ?thesis by auto
qed


lemma unat_eq_nibble: "unat (a::byte) = unat b \<longleftrightarrow> a = b"
  by (simp add: word_unat_eq_iff)

lemma lookup_twoChildren:
  assumes "x \<noteq> y" "x < 16" "y < 16"
  shows "lookup (Full c (((replicate NumChildren Nil_node)[unat y := n1])[unat x := n2]) ver) q =
     (if take (length c) q = c \<and> length c < length q
      then (if q ! length c = x then lookup n2 (drop (Suc (length c)) q)
            else if q ! length c = y then lookup n1 (drop (Suc (length c)) q)
            else None)
      else None)"
proof -
  have ux: "unat x < 16" and uy: "unat y < 16" using assms by (simp_all add: unat_nibble)
  show ?thesis
  proof (cases "unat (q ! length c) < 16")
    case True
    then show ?thesis using ux uy assms(1)
      by (auto simp: NumChildren_def nth_list_update unat_eq_nibble)
  next
    case False
    then have "q ! length c \<noteq> x" "q ! length c \<noteq> y" using ux uy by auto
    then show ?thesis using False by (simp add: NumChildren_def)
  qed
qed

lemma wf_twoChildren:
  assumes "x \<noteq> y" "x < 16" "y < 16" "\<forall>e \<in> set c. e < 16" "length pre + length c < 64"
    "wfNode (pre @ c @ [y]) n1" "wfNode (pre @ c @ [x]) n2"
  shows "wfNode pre (Full c (((replicate NumChildren Nil_node)[unat y := n1])[unat x := n2]) ver)"
proof -
  have ux: "unat x < 16" and uy: "unat y < 16" using assms by (simp_all add: unat_nibble)
  have ne: "unat y \<noteq> unat x" using assms(1) by (simp add: unat_eq_nibble)
  have n1: "n1 \<noteq> Nil_node" and n2: "n2 \<noteq> Nil_node" using assms(6,7) by auto
  have liv: "livingChildren (((replicate NumChildren Nil_node)[unat y := n1])[unat x := n2]) = 2"
    using livingChildren_two[OF _ _ ne n1 n2] ux uy by (simp add: NumChildren_def)
  have "wfChildren (pre @ c) 0 (((replicate NumChildren Nil_node)[unat y := n1])[unat x := n2])"
    unfolding wfChildren_iff
  proof (intro allI impI)
    fix i assume "i < length (((replicate NumChildren Nil_node)[unat y := n1])[unat x := n2])"
    then have i: "i < 16" by (simp add: NumChildren_def)
    show "(((replicate NumChildren Nil_node)[unat y := n1])[unat x := n2]) ! i = Nil_node \<or>
          wfNode ((pre @ c) @ [of_nat (0 + i)]) ((((replicate NumChildren Nil_node)[unat y := n1])[unat x := n2]) ! i)"
      using i assms(6,7) ux uy ne
      by (auto simp: NumChildren_def nth_list_update)
  qed
  then show ?thesis using liv assms(4,5) by simp
qed

lemma AddSibling_Leaf_eq:
  assumes "x \<noteq> y" "x < 16" "y < 16"
  shows "AddSibling (Leaf (c @ y # rb) nv ver0) (c @ x # ra) path value ver =
     Inr (Full c (((replicate NumChildren Nil_node)[unat y := Leaf rb nv ver])[unat x := Leaf ra value ver]) ver)"
  using assms unat_nibble[OF assms(2)] unat_nibble[OF assms(3)]
  by (simp add: setTwoChildren_def NumChildren_def Let_def)

lemma AddSibling_Full_eq:
  assumes "x \<noteq> y" "x < 16" "y < 16"
  shows "AddSibling (Full (c @ y # rb) cs ver0) (c @ x # ra) path value ver =
     Inr (Full c (((replicate NumChildren Nil_node)[unat y := Full rb cs ver])[unat x := Leaf ra value ver]) ver)"
  using assms unat_nibble[OF assms(2)] unat_nibble[OF assms(3)]
  by (simp add: setTwoChildren_def NumChildren_def Let_def)

lemma validTail_append_nibbles:
  assumes "validTail (c @ x # ra)" "ra \<noteq> []"
  shows "x < 16" "\<forall>e \<in> set c. e < 16" "validTail ra"
proof -
  have bl: "butlast (c @ x # ra) = c @ x # butlast ra" using assms(2) by (simp add: butlast_append)
  with assms(1) show "x < 16" "\<forall>e \<in> set c. e < 16" by (auto simp: validTail_def)
  show "validTail ra" using assms bl by (auto simp: validTail_def)
qed

lemma drop_neq_of_take_eq:
  "take n p = take n q \<Longrightarrow> p \<noteq> q \<Longrightarrow> drop n p \<noteq> drop n q"
  by (metis append_take_drop_id)

lemma KeySet_Remove_set: "set (KeySet_Remove ks p) = {e \<in> set ks. fst e \<noteq> p}"
  by (auto simp: KeySet_Remove_def)

lemma wfNode_WDK_I:
  assumes "wfNode pre n'" "\<forall>(p, v) \<in> set ks. validPath p \<and> take (length pre) p = pre \<and> lookup n (drop (length pre) p) = None"
    "set ks' \<subseteq> set ks" "path \<notin> fst ` set ks'" "take (length pre) path = pre"
    "\<forall>q. lookup n' q = (if q = drop (length pre) path then Some value else lookup n q)"
  shows "wfNode pre (WithDeletedKeys n' ks')"
proof -
  have "\<forall>(p, v) \<in> set ks'. validPath p \<and> take (length pre) p = pre \<and> lookup n' (drop (length pre) p) = None"
  proof (clarify)
    fix p v assume pv: "(p, v) \<in> set ks'"
    then have in_ks: "(p, v) \<in> set ks" using assms(3) by auto
    then have a: "validPath p" "take (length pre) p = pre" "lookup n (drop (length pre) p) = None"
      using assms(2) by auto
    have "p \<noteq> path" using pv assms(4) by force
    then have "drop (length pre) p \<noteq> drop (length pre) path"
      using drop_neq_of_take_eq[of "length pre" p path] a(2) assms(5) by simp
    then show "validPath p \<and> take (length pre) p = pre \<and> lookup n' (drop (length pre) p) = None"
      using a assms(6) by simp
  qed
  then show ?thesis using assms(1) by simp
qed

lemma AddSibling_spec:
  assumes vp: "validPath path" and val: "value \<noteq> deletedValue"
  shows "wfNode pre n \<Longrightarrow> take (length pre) path = pre \<Longrightarrow>
     \<not> PrefixContainedIn n path (length pre) \<Longrightarrow>
     \<exists>n'. AddSibling n (drop (length pre) path) path value ver = Inr n' \<and> wfNode pre n' \<and>
          (\<forall>q. lookup n' q = (if q = drop (length pre) path then Some value else lookup n q))"
proof (induction n)
  case Nil_node
  then show ?case by simp
next
  case (Leaf nKey nv ver0)
  define key where "key = drop (length pre) path"
  from Leaf.prems have len: "length pre + length nKey = 65" and vt: "validTail nKey"
    and nv: "nv \<noteq> deletedValue" by auto
  have ne: "nKey \<noteq> []" using vt by (simp add: validTail_def)
  have pre64: "length pre \<le> 64" using len ne by (cases nKey) auto
  have klen: "length key = length nKey" using len vp by (simp add: key_def)
  have vtk: "validTail key" unfolding key_def using validTail_drop[OF vp pre64] .
  have neq: "key \<noteq> nKey" using Leaf.prems(3) klen
    by (auto simp: prefixContainedIn_iff key_def)
  have m1: "PrefixLen key nKey < length key"
  proof (rule ccontr)
    assume "\<not> PrefixLen key nKey < length key"
    then have "PrefixLen key nKey = length key" using PrefixLen_le(1)[of key nKey] by simp
    then have "take (length key) nKey = key" by (simp add: PrefixLen_full)
    then show False using neq klen by simp
  qed
  have m2: "PrefixLen key nKey < length nKey" using m1 klen by (simp only:)
  obtain c x y ra rb where
    d: "key = c @ x # ra" "nKey = c @ y # rb" "x \<noteq> y" "length c = PrefixLen key nKey"
    by (rule PrefixLen_decompose[OF m1 m2])
  have rlen: "length ra = length rb" using klen d(1,2) by simp
  have ra: "ra \<noteq> []"
  proof
    assume "ra = []"
    then have "rb = []" using rlen by simp
    then have "x = 16" "y = 16" using vtk vt d(1,2) \<open>ra = []\<close> by (simp_all add: validTail_def)
    then show False using d(3) by simp
  qed
  then have rb: "rb \<noteq> []" using rlen by auto
  have x16: "x < 16" and c16: "\<forall>e \<in> set c. e < 16" and vra: "validTail ra"
    using validTail_append_nibbles[OF vtk[unfolded d(1)] ra] by auto
  have y16: "y < 16" and vrb: "validTail rb"
    using validTail_append_nibbles[OF vt[unfolded d(2)] rb] by auto
  let ?n' = "Full c (((replicate NumChildren Nil_node)[unat y := Leaf rb nv ver])[unat x := Leaf ra value ver]) ver"
  have eq: "AddSibling (Leaf nKey nv ver0) key path value ver = Inr ?n'"
    unfolding d(1,2) by (rule AddSibling_Leaf_eq[OF d(3) x16 y16])
  have l1: "length pre + length c < 64" using len d(2) rb by (cases rb) auto
  have w1: "wfNode (pre @ c @ [y]) (Leaf rb nv ver)" using len d(2) vrb nv by simp
  have w2: "wfNode (pre @ c @ [x]) (Leaf ra value ver)" using len d(2) rlen vra val by simp
  have wf: "wfNode pre ?n'" by (rule wf_twoChildren[OF d(3) x16 y16 c16 l1 w1 w2])
  have lk: "\<forall>q. lookup ?n' q = (if q = key then Some value else lookup (Leaf nKey nv ver0) q)"
  proof
    fix q
    show "lookup ?n' q = (if q = key then Some value else lookup (Leaf nKey nv ver0) q)"
      unfolding lookup_twoChildren[OF d(3) x16 y16]
      using d(3) by (auto simp: d(1,2) eq_append_Cons_iff)
  qed
  show ?case using eq wf lk unfolding key_def by blast
next
  case (Full nKey cs ver0)
  define key where "key = drop (length pre) path"
  from Full.prems have cs: "length cs = NumChildren" and nk16: "\<forall>e \<in> set nKey. e < 16"
    and len: "length pre + length nKey < 64" and liv: "2 \<le> livingChildren cs"
    and wc: "wfChildren (pre @ nKey) 0 cs" by auto
  have pre64: "length pre \<le> 64" using len by simp
  have klen: "length key = 65 - length pre" using vp by (simp add: key_def)
  have vtk: "validTail key" unfolding key_def using validTail_drop[OF vp pre64] .
  have nc: "take (length nKey) key \<noteq> nKey" using Full.prems(3)
    by (simp add: prefixContainedIn_iff key_def)
  have m2: "PrefixLen key nKey < length nKey"
  proof (rule ccontr)
    assume "\<not> PrefixLen key nKey < length nKey"
    then have "PrefixLen nKey key = length nKey"
      using PrefixLen_le(2)[of key nKey] by (simp add: PrefixLen_commute)
    then show False using nc by (simp add: PrefixLen_full)
  qed
  then have m1: "PrefixLen key nKey < length key" using klen len by simp
  obtain c x y ra rb where
    d: "key = c @ x # ra" "nKey = c @ y # rb" "x \<noteq> y" "length c = PrefixLen key nKey"
    by (rule PrefixLen_decompose[OF m1 m2])
  have ra: "ra \<noteq> []" using klen len d(1,2) by (cases ra) auto
  have x16: "x < 16" and vra: "validTail ra"
    using validTail_append_nibbles[OF vtk[unfolded d(1)] ra] by auto
  have y16: "y < 16" and c16: "\<forall>e \<in> set c. e < 16" and rb16: "\<forall>e \<in> set rb. e < 16"
    using nk16 d(2) by auto
  let ?n' = "Full c (((replicate NumChildren Nil_node)[unat y := Full rb cs ver])[unat x := Leaf ra value ver]) ver"
  have eq: "AddSibling (Full nKey cs ver0) key path value ver = Inr ?n'"
    unfolding d(1,2) by (rule AddSibling_Full_eq[OF d(3) x16 y16])
  have l1: "length pre + length c < 64" using len d(2) by simp
  have w1: "wfNode (pre @ c @ [y]) (Full rb cs ver)"
    using cs rb16 len liv wc d(2) by simp
  have w2: "wfNode (pre @ c @ [x]) (Leaf ra value ver)"
    using klen pre64 d(1) vra val by simp
  have wf: "wfNode pre ?n'" by (rule wf_twoChildren[OF d(3) x16 y16 c16 l1 w1 w2])
  have lk: "\<forall>q. lookup ?n' q = (if q = key then Some value else lookup (Full nKey cs ver0) q)"
  proof
    fix q
    have a: "lookup (Full nKey cs ver0) q =
        (if take (Suc (length c)) q = c @ [y] \<and> Suc (length c) \<le> length q
         then lookup (Full rb cs ver) (drop (Suc (length c)) q) else None)"
      using lookup_Full_append[of "c @ [y]" rb cs ver0 q ver] d(2) by simp
    have b: "take (Suc (length c)) q = c @ [y] \<and> Suc (length c) \<le> length q \<longleftrightarrow>
             take (length c) q = c \<and> length c < length q \<and> q ! length c = y"
      by (auto simp: take_Suc_conv_app_nth Suc_le_eq)
    show "lookup ?n' q = (if q = key then Some value else lookup (Full nKey cs ver0) q)"
      unfolding lookup_twoChildren[OF d(3) x16 y16] a b
      using d(3) by (auto simp: d(1) eq_append_Cons_iff)
  qed
  show ?case using eq wf lk unfolding key_def by blast
next
  case (Stored h l ver0)
  then show ?case by simp
next
  case (WithDeletedKeys n0 ks)
  from WithDeletedKeys.prems have wn: "wfNode pre n0"
    and kk: "\<forall>(p, v) \<in> set ks. validPath p \<and> take (length pre) p = pre \<and> lookup n0 (drop (length pre) p) = None"
    and nc: "\<not> PrefixContainedIn n0 path (length pre)" by auto
  from WithDeletedKeys.IH[OF wn WithDeletedKeys.prems(2) nc] obtain n' where
    n': "AddSibling n0 (drop (length pre) path) path value ver = Inr n'" "wfNode pre n'"
        "\<forall>q. lookup n' q = (if q = drop (length pre) path then Some value else lookup n0 q)"
    by blast
  show ?case
  proof (cases "KeySet_Contains ks path")
    case False
    then have "path \<notin> fst ` set ks" by (simp add: KeySet_Contains_iff)
    then have "wfNode pre (WithDeletedKeys n' ks)"
      using wfNode_WDK_I[OF n'(2) kk _ _ WithDeletedKeys.prems(2) n'(3), of ks] by simp
    then show ?thesis using False n' by simp
  next
    case True
    have sub: "set (KeySet_Remove ks path) \<subseteq> set ks" by (auto simp: KeySet_Remove_set)
    have notin: "path \<notin> fst ` set (KeySet_Remove ks path)" by (auto simp: KeySet_Remove_set)
    have "wfNode pre (WithDeletedKeys n' (KeySet_Remove ks path))"
      by (rule wfNode_WDK_I[OF n'(2) kk sub notin WithDeletedKeys.prems(2) n'(3)])
    then show ?thesis using True n' by (simp add: Let_def)
  qed
qed

lemma livingChildren_Cons:
  "livingChildren (c # cs) = (if c = Nil_node then livingChildren cs else Suc (livingChildren cs))"
  by (simp add: livingChildren_def)

lemma livingChildren_Nil [simp]: "livingChildren [] = 0"
  by (simp add: livingChildren_def)

lemma livingChildren_zero_iff: "livingChildren cs = 0 \<longleftrightarrow> (\<forall>c \<in> set cs. c = Nil_node)"
  by (induction cs) (auto simp: livingChildren_Cons)

lemma LastLivingChild_loop_none:
  "livingChildren cs = 0 \<Longrightarrow> LastLivingChild_loop cs i acc = acc"
proof (induction cs arbitrary: i acc)
  case Nil
  then show ?case by simp
next
  case (Cons c cs)
  then show ?case by (cases acc) (auto simp: livingChildren_Cons split: if_splits)
qed

lemma LastLivingChild_loop_snd:
  "snd (LastLivingChild_loop cs i (idx, onl)) =
     (if livingChildren cs = 0 then onl else (livingChildren cs = 1 \<and> idx = - 1))"
proof (induction cs arbitrary: i idx onl)
  case Nil
  then show ?case by simp
next
  case (Cons c cs)
  show ?case
  proof (cases "c = Nil_node")
    case True
    then show ?thesis using Cons.IH[of "Suc i" idx onl] by (simp add: livingChildren_Cons)
  next
    case False
    then show ?thesis using Cons.IH[of "Suc i" "int i" "idx = - 1"]
      by (auto simp: livingChildren_Cons)
  qed
qed

lemma LastLivingChild_loop_fst:
  "livingChildren cs = 1 \<Longrightarrow> j < length cs \<Longrightarrow> cs ! j \<noteq> Nil_node \<Longrightarrow>
   fst (LastLivingChild_loop cs i acc) = int (i + j)"
proof (induction cs arbitrary: i j acc)
  case Nil
  then show ?case by simp
next
  case (Cons c cs)
  obtain idx onl where acc: "acc = (idx, onl)" by (cases acc)
  show ?case
  proof (cases "c = Nil_node")
    case True
    with Cons.prems obtain j' where j': "j = Suc j'" by (cases j) auto
    from True Cons.prems have "livingChildren cs = 1" by (simp add: livingChildren_Cons)
    then have "fst (LastLivingChild_loop cs (Suc i) acc) = int (Suc i + j')"
      using Cons.IH[of j' "Suc i" acc] Cons.prems j' by simp
    then show ?thesis using True j' acc by simp
  next
    case False
    with Cons.prems have z: "livingChildren cs = 0" by (simp add: livingChildren_Cons)
    have "j = 0"
    proof (rule ccontr)
      assume "j \<noteq> 0"
      then obtain j' where "j = Suc j'" by (cases j) auto
      then have "cs ! j' \<noteq> Nil_node" "j' < length cs" using Cons.prems by auto
      then show False using z by (auto simp: livingChildren_zero_iff)
    qed
    then show ?thesis using False acc z by (simp add: LastLivingChild_loop_none)
  qed
qed

lemma LastLivingChild_only: "snd (LastLivingChild cs) \<longleftrightarrow> livingChildren cs = 1"
  by (simp add: LastLivingChild_def LastLivingChild_loop_snd)

lemma LastLivingChild_index:
  "livingChildren cs = 1 \<Longrightarrow> j < length cs \<Longrightarrow> cs ! j \<noteq> Nil_node \<Longrightarrow>
   fst (LastLivingChild cs) = int j"
  using LastLivingChild_loop_fst[of cs j 0] by (simp add: LastLivingChild_def)

lemma livingChildren_card:
  "livingChildren cs = card {i. i < length cs \<and> cs ! i \<noteq> Nil_node}"
  unfolding livingChildren_def by (rule length_filter_conv_card)

lemma living_set_update:
  assumes "r < length cs"
  shows "{i. i < length (cs[r := n]) \<and> cs[r := n] ! i \<noteq> Nil_node} =
         (if n = Nil_node then {i. i < length cs \<and> cs ! i \<noteq> Nil_node} - {r}
          else insert r {i. i < length cs \<and> cs ! i \<noteq> Nil_node})"
  using assms by (auto simp: nth_list_update)

lemma livingChildren_update_live:
  assumes "r < length cs" "n \<noteq> Nil_node"
  shows "livingChildren (cs[r := n]) = (if cs ! r = Nil_node then Suc (livingChildren cs) else livingChildren cs)"
proof -
  let ?S = "{i. i < length cs \<and> cs ! i \<noteq> Nil_node}"
  have fin: "finite ?S" by simp
  have "livingChildren (cs[r := n]) = card (insert r ?S)"
    unfolding livingChildren_card using living_set_update[OF assms(1), of n] assms(2) by simp
  also have "\<dots> = (if r \<in> ?S then card ?S else Suc (card ?S))"
    using fin by (simp add: card_insert_if)
  finally show ?thesis using assms(1) by (auto simp: livingChildren_card)
qed

lemma livingChildren_update_Nil:
  assumes "r < length cs" "cs ! r \<noteq> Nil_node"
  shows "Suc (livingChildren (cs[r := Nil_node])) = livingChildren cs"
proof -
  let ?S = "{i. i < length cs \<and> cs ! i \<noteq> Nil_node}"
  have fin: "finite ?S" by simp
  have rin: "r \<in> ?S" using assms by simp
  have "livingChildren (cs[r := Nil_node]) = card (?S - {r})"
    unfolding livingChildren_card using living_set_update[OF assms(1), of Nil_node] by simp
  moreover have "Suc (card (?S - {r})) = card ?S" using fin rin by (rule card_Suc_Diff1)
  ultimately show ?thesis by (simp only: livingChildren_card)
qed

lemma replaceChild_keep:
  assumes "unat r < length cs" "2 \<le> livingChildren (cs[unat r := new])"
  shows "replaceChild t k cs new r path = Inr (Full k (cs[unat r := new]) (version t))"
proof -
  have "\<not> snd (LastLivingChild (cs[unat r := new]))"
    using assms(2) by (simp add: LastLivingChild_only)
  then obtain a where "LastLivingChild (cs[unat r := new]) = (a, False)"
    by (cases "LastLivingChild (cs[unat r := new])") auto
  then show ?thesis using assms(1)
    by (simp add: replaceChild_def Children_Replace_def)
qed

lemma update_not_contained:
  "isLive n \<Longrightarrow> \<not> PrefixContainedIn n path i \<Longrightarrow> i \<le> length path \<Longrightarrow>
   update t n path i v =
     (case AddSibling n (drop i path) path v (version t) of
        Inl e \<Rightarrow> UpdateFailed e | Inr a \<Rightarrow> Updated a)"
  by (subst update.simps) simp

lemma update_Leaf:
  "i \<le> length path \<Longrightarrow> prefixContainedIn k path i \<Longrightarrow>
   update t (Leaf k nv ver) path i v =
     (if HasSameValue nv v then Unchanged else Updated (Leaf k v (version t)))"
  by (subst update.simps) simp

lemma update_Full:
  "i \<le> length path \<Longrightarrow> prefixContainedIn k path i \<Longrightarrow> i + length k < length path \<Longrightarrow>
   unat (path ! (i + length k)) < length cs \<Longrightarrow>
   update t (Full k cs ver) path i v =
     (case update t (cs ! unat (path ! (i + length k))) path (i + length k + 1) v of
        Updated afterChild \<Rightarrow>
          (case replaceChild t k cs afterChild (path ! (i + length k)) (take i path) of
             Inl e \<Rightarrow> UpdateFailed e
           | Inr a \<Rightarrow> Updated a)
      | Unchanged \<Rightarrow> Unchanged
      | UpdateFailed e \<Rightarrow> UpdateFailed e)"
  by (subst update.simps) (simp add: Let_def)

lemma update_WDK:
  "i \<le> length path \<Longrightarrow> isLive n \<Longrightarrow> PrefixContainedIn n path i \<Longrightarrow>
   update t (WithDeletedKeys n ks) path i v =
     (case update t n path i v of
        Updated a \<Rightarrow>
          if KeySet_Contains ks path
          then Updated (WithDeletedKeys a (KeySet_Remove ks path))
          else Updated (WithDeletedKeys a ks)
      | Unchanged \<Rightarrow> Unchanged
      | UpdateFailed e \<Rightarrow> UpdateFailed e)"
  by (subst update.simps) simp

lemma pre_le_path: "take (length pre) path = pre \<Longrightarrow> length pre \<le> length path"
  by (metis length_take min.cobounded1)

lemma update_not_contained_spec:
  assumes vp: "validPath path" and val: "value \<noteq> deletedValue"
    and wf: "wfNode pre n" and tk: "take (length pre) path = pre"
    and nc: "\<not> PrefixContainedIn n path (length pre)"
  shows "\<exists>n'. update t n path (length pre) value = Updated n' \<and> wfNode pre n' \<and>
          (\<forall>q. lookup n' q = (if q = drop (length pre) path then Some value else lookup n q))"
proof -
  from AddSibling_spec[OF vp val wf tk nc, of "version t"] obtain n' where
    n': "AddSibling n (drop (length pre) path) path value (version t) = Inr n'" "wfNode pre n'"
        "\<forall>q. lookup n' q = (if q = drop (length pre) path then Some value else lookup n q)"
    by blast
  have "update t n path (length pre) value = Updated n'"
    using update_not_contained[OF wfNode_isLive[OF wf] nc pre_le_path[OF tk], of t "value"] n'(1)
    by simp
  then show ?thesis using n' by blast
qed

lemma update_Nil_spec:
  assumes vp: "validPath path" and val: "value \<noteq> deletedValue"
    and tk: "take (length pre) path = pre" and p64: "length pre \<le> 64"
  shows "update t Nil_node path (length pre) value = Updated (Leaf (drop (length pre) path) value (version t))"
    and "wfNode pre (Leaf (drop (length pre) path) value (version t))"
proof -
  show "update t Nil_node path (length pre) value = Updated (Leaf (drop (length pre) path) value (version t))"
    using update_not_contained[of Nil_node path "length pre" t "value"] pre_le_path[OF tk] by simp
  show "wfNode pre (Leaf (drop (length pre) path) value (version t))"
    using validTail_drop[OF vp p64] vp p64 val by simp
qed

lemma drop_path_decompose:
  assumes "take (length k) (drop i path) = k" "i + length k < length path"
  shows "drop i path = k @ path ! (i + length k) # drop (i + length k + 1) path"
proof -
  have "drop i path = take (length k) (drop i path) @ drop (length k) (drop i path)"
    by (simp only: append_take_drop_id)
  also have "\<dots> = k @ drop (i + length k) path" using assms(1) by (simp add: add.commute)
  also have "drop (i + length k) path = path ! (i + length k) # drop (i + length k + 1) path"
    using assms(2) by (simp add: Cons_nth_drop_Suc)
  finally show ?thesis .
qed

lemma lookup_Full_child:
  assumes "length cs = NumChildren"
  shows "lookup (Full k cs ver) q =
     (if take (length k) q = k \<and> length k < length q \<and> q ! length k < 16
      then lookup (cs ! unat (q ! length k)) (drop (Suc (length k)) q) else None)"
  using assms by (auto simp: NumChildren_def word_less_nat_alt)

lemma wfNode_Full_update:
  assumes wf: "wfNode pre (Full k cs ver)" and r: "r < 16"
    and c': "wfNode (pre @ k @ [r]) c'"
  shows "wfNode pre (Full k (cs[unat r := c']) ver')"
proof -
  from wf have cs: "length cs = 16" and rest: "\<forall>x \<in> set k. x < 16" "length pre + length k < 64"
    and liv: "2 \<le> livingChildren cs" and wc: "wfChildren (pre @ k) 0 cs"
    by (auto simp: NumChildren_def)
  have ur: "unat r < length cs" using r cs by (simp add: unat_nibble)
  have ne: "c' \<noteq> Nil_node" using c' by auto
  have liv': "2 \<le> livingChildren (cs[unat r := c'])"
    using livingChildren_update_live[OF ur ne] liv by (simp split: if_splits)
  have "wfChildren (pre @ k) 0 (cs[unat r := c'])"
    unfolding wfChildren_iff
  proof (intro allI impI)
    fix i assume i: "i < length (cs[unat r := c'])"
    show "cs[unat r := c'] ! i = Nil_node \<or> wfNode ((pre @ k) @ [of_nat (0 + i)]) (cs[unat r := c'] ! i)"
    proof (cases "i = unat r")
      case True
      then show ?thesis using c' ur by simp
    next
      case False
      then show ?thesis using wc i by (simp add: wfChildren_iff)
    qed
  qed
  then show ?thesis using cs rest liv' by (simp add: NumChildren_def)
qed

lemma update_spec:
  assumes vp: "validPath path" and val: "value \<noteq> deletedValue"
  shows "wfNode pre n \<Longrightarrow> take (length pre) path = pre \<Longrightarrow>
    (case update t n path (length pre) value of
       Updated n' \<Rightarrow> wfNode pre n' \<and>
         (\<forall>q. lookup n' q = (if q = drop (length pre) path then Some value else lookup n q))
     | Unchanged \<Rightarrow> lookup n (drop (length pre) path) = Some value
     | UpdateFailed e \<Rightarrow> False)"
proof (induction n arbitrary: pre)
  case Nil_node
  then show ?case by simp
next
  case (Stored h l ver0)
  then show ?case by simp
next
  case (Leaf k nv ver0)
  show ?case
  proof (cases "PrefixContainedIn (Leaf k nv ver0) path (length pre)")
    case False
    from update_not_contained_spec[OF vp val Leaf.prems(1,2) False, of t]
    show ?thesis by auto
  next
    case True
    from Leaf.prems have len: "length pre + length k = 65" by simp
    have "take (length k) (drop (length pre) path) = drop (length pre) path"
      using len vp by simp
    with True have k: "drop (length pre) path = k" by (simp add: prefixContainedIn_iff)
    have c: "prefixContainedIn k path (length pre)" using True by simp
    have u: "update t (Leaf k nv ver0) path (length pre) value =
        (if HasSameValue nv value then Unchanged else Updated (Leaf k value (version t)))"
      by (rule update_Leaf[OF pre_le_path[OF Leaf.prems(2)] c])
    show ?thesis
    proof (cases "nv = value")
      case True
      then show ?thesis using u k by (simp add: HasSameValue_def)
    next
      case False
      have "wfNode pre (Leaf k value (version t))" using Leaf.prems(1) val by simp
      then show ?thesis using u k False by (simp add: HasSameValue_def)
    qed
  qed
next
  case (WithDeletedKeys n0 ks)
  show ?case
  proof (cases "PrefixContainedIn (WithDeletedKeys n0 ks) path (length pre)")
    case False
    from update_not_contained_spec[OF vp val WithDeletedKeys.prems(1,2) False, of t]
    show ?thesis by auto
  next
    case True
    from WithDeletedKeys.prems have wn: "wfNode pre n0"
      and kk: "\<forall>(p, v) \<in> set ks. validPath p \<and> take (length pre) p = pre \<and> lookup n0 (drop (length pre) p) = None"
      by auto
    have c: "PrefixContainedIn n0 path (length pre)" using True by simp
    note u = update_WDK[OF pre_le_path[OF WithDeletedKeys.prems(2)] wfNode_isLive[OF wn] c, of t ks "value"]
    note ih = WithDeletedKeys.IH[OF wn WithDeletedKeys.prems(2)]
    show ?thesis
    proof (cases "update t n0 path (length pre) value")
      case (Updated a)
      with ih have wa: "wfNode pre a"
        and la: "\<forall>q. lookup a q = (if q = drop (length pre) path then Some value else lookup n0 q)"
        by auto
      show ?thesis
      proof (cases "KeySet_Contains ks path")
        case False
        then have notin: "path \<notin> fst ` set ks" by (simp add: KeySet_Contains_iff)
        have "wfNode pre (WithDeletedKeys a ks)"
          by (rule wfNode_WDK_I[OF wa kk subset_refl notin WithDeletedKeys.prems(2) la])
        then show ?thesis using u Updated False la by simp
      next
        case True
        have sub: "set (KeySet_Remove ks path) \<subseteq> set ks" by (auto simp: KeySet_Remove_set)
        have notin: "path \<notin> fst ` set (KeySet_Remove ks path)" by (auto simp: KeySet_Remove_set)
        have "wfNode pre (WithDeletedKeys a (KeySet_Remove ks path))"
          by (rule wfNode_WDK_I[OF wa kk sub notin WithDeletedKeys.prems(2) la])
        then show ?thesis using u Updated True la by simp
      qed
    next
      case Unchanged
      then show ?thesis using u ih by simp
    next
      case (UpdateFailed e)
      then show ?thesis using ih by simp
    qed
  qed
next
  case (Full k cs ver0)
  show ?case
  proof (cases "PrefixContainedIn (Full k cs ver0) path (length pre)")
    case False
    from update_not_contained_spec[OF vp val Full.prems(1,2) False, of t]
    show ?thesis by auto
  next
    case True
    from Full.prems have cs: "length cs = 16" and len: "length pre + length k < 64"
      and liv: "2 \<le> livingChildren cs" and wc: "wfChildren (pre @ k) 0 cs"
      by (auto simp: NumChildren_def)
    have csN: "length cs = NumChildren" using cs by (simp add: NumChildren_def)
    have c: "prefixContainedIn k path (length pre)" using True by simp
    then have tk: "take (length k) (drop (length pre) path) = k"
      by (simp add: prefixContainedIn_iff)
    define i where "i = length pre + length k"
    define r where "r = path ! i"
    define child where "child = cs ! unat r"
    define pre' where "pre' = pre @ k @ [r]"
    define key' where "key' = drop (Suc i) path"
    have i64: "i < 64" using len by (simp add: i_def)
    have ilen: "i < length path" using i64 vp by simp
    have r16: "r < 16" unfolding r_def by (rule validPath_nibble[OF vp i64])
    have ur: "unat r < length cs" using r16 cs by (simp add: unat_nibble)
    have lpre': "length pre' = Suc i" by (simp add: pre'_def i_def)
    have tpre': "take (length pre') path = pre'"
      unfolding pre'_def r_def i_def
      using take_extend[OF Full.prems(2) tk] ilen by (simp add: i_def)
    have dd: "drop (length pre) path = k @ r # key'"
      unfolding r_def key'_def i_def
      using drop_path_decompose[OF tk] ilen by (simp add: i_def)
    have u: "update t (Full k cs ver0) path (length pre) value =
       (case update t child path (Suc i) value of
          Updated afterChild \<Rightarrow>
            (case replaceChild t k cs afterChild r (take (length pre) path) of
               Inl e \<Rightarrow> UpdateFailed e
             | Inr a \<Rightarrow> Updated a)
        | Unchanged \<Rightarrow> Unchanged
        | UpdateFailed e \<Rightarrow> UpdateFailed e)"
      unfolding child_def r_def i_def
      using update_Full[OF pre_le_path[OF Full.prems(2)] c, of cs t ver0 "value"]
        ilen[unfolded i_def] ur[unfolded r_def i_def]
      by simp
    have R: "(case update t child path (Suc i) value of
       Updated c' \<Rightarrow> wfNode pre' c' \<and>
         (\<forall>q. lookup c' q = (if q = key' then Some value else lookup child q))
     | Unchanged \<Rightarrow> lookup child key' = Some value
     | UpdateFailed e \<Rightarrow> False)"
    proof (cases "child = Nil_node")
      case True
      have p64: "length pre' \<le> 64" using lpre' i64 by simp
      have e: "update t child path (length pre') value
               = Updated (Leaf (drop (length pre') path) value (version t))"
        unfolding True by (rule update_Nil_spec(1)[OF vp val tpre' p64])
      have w: "wfNode pre' (Leaf (drop (length pre') path) value (version t))"
        by (rule update_Nil_spec(2)[OF vp val tpre' p64])
      show ?thesis unfolding key'_def lpre'[symmetric] e using w True by simp
    next
      case False
      have "wfNode (pre @ k @ [r]) (cs ! unat r)"
        using wc ur False by (auto simp: wfChildren_iff child_def)
      then have wch: "wfNode pre' child" by (simp add: pre'_def child_def)
      have "child \<in> set cs" using ur by (simp add: child_def)
      from Full.IH[OF this wch tpre'] show ?thesis unfolding key'_def lpre'[symmetric] .
    qed
    show ?thesis
    proof (cases "update t child path (Suc i) value")
      case (Updated c')
      with R have wc': "wfNode pre' c'"
        and lc': "\<forall>q. lookup c' q = (if q = key' then Some value else lookup child q)"
        by auto
      have ne: "c' \<noteq> Nil_node" using wc' by auto
      have "2 \<le> livingChildren (cs[unat r := c'])"
        using livingChildren_update_live[OF ur ne] liv by (simp split: if_splits)
      from replaceChild_keep[OF ur this]
      have u2: "update t (Full k cs ver0) path (length pre) value
                = Updated (Full k (cs[unat r := c']) (version t))"
        using u Updated by simp
      have wf': "wfNode pre (Full k (cs[unat r := c']) (version t))"
        using wfNode_Full_update[OF Full.prems(1) r16] wc' by (simp add: pre'_def)
      have csN': "length (cs[unat r := c']) = NumChildren" using csN by simp
      have lk: "\<forall>q. lookup (Full k (cs[unat r := c']) (version t)) q =
                (if q = drop (length pre) path then Some value else lookup (Full k cs ver0) q)"
      proof
        fix q
        show "lookup (Full k (cs[unat r := c']) (version t)) q =
                (if q = drop (length pre) path then Some value else lookup (Full k cs ver0) q)"
        proof (cases "take (length k) q = k \<and> length k < length q \<and> q ! length k < 16")
          case False
          then have "q \<noteq> k @ r # key'" using r16 by (auto simp: eq_append_Cons_iff)
          moreover have "lookup (Full k (cs[unat r := c']) (version t)) q = None"
            unfolding lookup_Full_child[OF csN'] by (simp only: False if_False)
          moreover have "lookup (Full k cs ver0) q = None"
            unfolding lookup_Full_child[OF csN] by (simp only: False if_False)
          ultimately show ?thesis unfolding dd by simp
        next
          case True
          show ?thesis
          proof (cases "q ! length k = r")
            case False
            then have "unat (q ! length k) \<noteq> unat r" by (simp add: unat_eq_nibble)
            moreover have "q \<noteq> k @ r # key'" using False by (auto simp: eq_append_Cons_iff)
            ultimately show ?thesis using True
              unfolding lookup_Full_child[OF csN'] lookup_Full_child[OF csN] dd by simp
          next
            case qr: True
            have "q = k @ r # key' \<longleftrightarrow> drop (Suc (length k)) q = key'"
              using True qr by (simp add: eq_append_Cons_iff)
            then show ?thesis using True qr ur lc'
              unfolding lookup_Full_child[OF csN'] lookup_Full_child[OF csN] dd
              by (simp add: child_def)
          qed
        qed
      qed
      show ?thesis using u2 wf' lk by simp
    next
      case Unchanged
      with R have "lookup child key' = Some value" by simp
      moreover have "lookup (Full k cs ver0) (k @ r # key') = lookup child key'"
        unfolding lookup_Full_child[OF csN] using r16 by (simp add: child_def)
      ultimately show ?thesis using u Unchanged dd by simp
    next
      case (UpdateFailed e)
      then show ?thesis using R by simp
    qed
  qed
qed


lemma validTail_append:
  "validTail p \<Longrightarrow> \<forall>x \<in> set a. x < 16 \<Longrightarrow> validTail (a @ p)"
  by (auto simp: validTail_def butlast_append)

lemma ReplacePrefix_spec:
  assumes a16: "\<forall>x \<in> set a. x < 16"
  shows "wfNode (pre @ a) c \<Longrightarrow>
     \<exists>p c'. Prefix c = Inr p \<and> ReplacePrefix c (a @ p) ver = Inr c' \<and> wfNode pre c' \<and>
       (\<forall>q. lookup c' q =
             (if take (length a) q = a \<and> length a \<le> length q then lookup c (drop (length a) q) else None))"
proof (induction c)
  case Nil_node
  then show ?case by simp
next
  case (Stored h l ver0)
  then show ?case by simp
next
  case (Leaf p v ver0)
  then have "wfNode pre (Leaf (a @ p) v ver)" using a16 by (simp add: validTail_append)
  then show ?case using lookup_Leaf_append[of a p v ver _ ver0] by simp
next
  case (Full p cs ver0)
  then have "wfNode pre (Full (a @ p) cs ver)" using a16 by auto
  then show ?case using lookup_Full_append[of a p cs ver _ ver0] by simp
next
  case (WithDeletedKeys n0 ks)
  then have wn: "wfNode (pre @ a) n0"
    and kk: "\<forall>(p, v) \<in> set ks. validPath p \<and> take (length (pre @ a)) p = pre @ a \<and>
                lookup n0 (drop (length (pre @ a)) p) = None" by auto
  from WithDeletedKeys.IH[OF wn] obtain p n0' where
    n0all: "Prefix n0 = Inr p \<and> ReplacePrefix n0 (a @ p) ver = Inr n0' \<and> wfNode pre n0' \<and>
      (\<forall>q. lookup n0' q =
             (if take (length a) q = a \<and> length a \<le> length q then lookup n0 (drop (length a) q) else None))"
    by (elim exE) (rule that)
  note n0' = n0all[THEN conjunct1] n0all[THEN conjunct2, THEN conjunct1]
    n0all[THEN conjunct2, THEN conjunct2, THEN conjunct1] n0all[THEN conjunct2, THEN conjunct2, THEN conjunct2]
  have "\<forall>(k, v) \<in> set ks. validPath k \<and> take (length pre) k = pre \<and> lookup n0' (drop (length pre) k) = None"
  proof (clarify)
    fix k v assume "(k, v) \<in> set ks"
    with kk have vk: "validPath k" and tk: "take (length pre + length a) k = pre @ a"
      and lk: "lookup n0 (drop (length pre + length a) k) = None" by auto
    have "take (length pre) (take (length pre + length a) k) = take (length pre) k" by simp
    with tk have t1: "take (length pre) k = pre" by simp
    have "lookup n0' (drop (length pre) k) = None"
      using n0'(4) lk by (simp add: add.commute)
    then show "validPath k \<and> take (length pre) k = pre \<and> lookup n0' (drop (length pre) k) = None"
      using vk t1 by simp
  qed
  then have "wfNode pre (WithDeletedKeys n0' ks)" using n0'(3) by simp
  then show ?case using n0' by simp
qed

lemma prependToKey_spec:
  assumes wf: "wfNode (pre @ k @ [j]) c" and j16: "j < 16" and k16: "\<forall>x \<in> set k. x < 16"
  shows "\<exists>c'. prependToKey c k (int (unat j)) ver = Inr c' \<and> wfNode pre c' \<and>
       (\<forall>q. lookup c' q =
             (if take (Suc (length k)) q = k @ [j] \<and> Suc (length k) \<le> length q
              then lookup c (drop (Suc (length k)) q) else None))"
proof -
  have a16: "\<forall>x \<in> set (k @ [j]). x < 16" using j16 k16 by simp
  from ReplacePrefix_spec[OF a16, of pre c ver] wf obtain p c' where
    c': "Prefix c = Inr p" "ReplacePrefix c ((k @ [j]) @ p) ver = Inr c'" "wfNode pre c'"
      "\<forall>q. lookup c' q =
             (if take (length (k @ [j])) q = k @ [j] \<and> length (k @ [j]) \<le> length q
              then lookup c (drop (length (k @ [j])) q) else None)"
    by auto
  have "prependToKey c k (int (unat j)) ver = Inr c'"
    using c'(1,2) by (simp add: prependToKey_def)
  then show ?thesis using c'(3,4) by simp
qed

lemma replaceChild_collapse:
  assumes "unat r < length cs" "livingChildren (cs[unat r := new]) = 1"
    "j < length cs" "cs[unat r := new] ! j \<noteq> Nil_node" "isLive (cs[unat r := new] ! j)"
  shows "replaceChild t k cs new r path = prependToKey (cs[unat r := new] ! j) k (int j) (version t)"
proof -
  have "snd (LastLivingChild (cs[unat r := new]))"
    using assms(2) by (simp add: LastLivingChild_only)
  moreover have "fst (LastLivingChild (cs[unat r := new])) = int j"
    using LastLivingChild_index[OF assms(2) _ assms(4)] assms(3) by simp
  ultimately have "LastLivingChild (cs[unat r := new]) = (int j, True)"
    by (cases "LastLivingChild (cs[unat r := new])") auto
  then show ?thesis using assms(1,5)
    by (simp add: replaceChild_def Children_Replace_def)
qed

lemma remove_not_contained:
  "isLive n \<Longrightarrow> \<not> PrefixContainedIn n path i \<Longrightarrow> i \<le> length path \<Longrightarrow>
   remove t n path i = NotRemoved"
  by (subst remove.simps) simp

lemma remove_Leaf:
  "i \<le> length path \<Longrightarrow> prefixContainedIn k path i \<Longrightarrow>
   remove t (Leaf k nv ver) path i =
     (if wasDeleted (Some nv) then RemoveFailed PanicDeletedLeaf
      else Removed Nil_node (NewKeySet path (version t)))"
  by (subst remove.simps) simp

lemma remove_Full:
  "i \<le> length path \<Longrightarrow> prefixContainedIn k path i \<Longrightarrow> i + length k < length path \<Longrightarrow>
   unat (path ! (i + length k)) < length cs \<Longrightarrow>
   remove t (Full k cs ver) path i =
     (case remove t (cs ! unat (path ! (i + length k))) path (i + length k + 1) of
        Removed afterChild deletedKeys \<Rightarrow>
          (case replaceChild t k cs afterChild (path ! (i + length k)) (take i path) of
             Inl e \<Rightarrow> RemoveFailed e
           | Inr a \<Rightarrow>
               if length deletedKeys = 0 then Removed a noDeletedKeys
               else Removed (WithDeletedKeys a deletedKeys) noDeletedKeys)
      | NotRemoved \<Rightarrow> NotRemoved
      | RemoveFailed e \<Rightarrow> RemoveFailed e)"
  by (subst remove.simps) (simp add: Let_def)

lemma remove_WDK:
  "i \<le> length path \<Longrightarrow> isLive n \<Longrightarrow> PrefixContainedIn n path i \<Longrightarrow>
   remove t (WithDeletedKeys n ks) path i =
     (if KeySet_Contains ks path then NotRemoved
      else
        (case remove t n path i of
           Removed a newDeletedKeys \<Rightarrow>
             if a = Nil_node then Removed a (KeySet_Merge ks newDeletedKeys)
             else Removed (WithDeletedKeys a (KeySet_Merge ks newDeletedKeys)) noDeletedKeys
         | NotRemoved \<Rightarrow> NotRemoved
         | RemoveFailed e \<Rightarrow> RemoveFailed e))"
  by (subst remove.simps) (simp add: Let_def split: removeResult.splits)

lemma KeySet_Merge_Nil [simp]: "KeySet_Merge ks [] = ks"
  by (simp add: KeySet_Merge_def)

lemma KeySet_Merge_subset: "set (KeySet_Merge ks new) \<subseteq> set ks \<union> set new"
  by (auto simp: KeySet_Merge_def)

lemma lookup_not_contained:
  assumes vp: "validPath path" and wf: "wfNode pre n" and tk: "take (length pre) path = pre"
    and nc: "\<not> PrefixContainedIn n path (length pre)"
  shows "lookup n (drop (length pre) path) = None"
proof -
  have "get t n path (length pre) = NotFound"
    by (rule get_not_contained[OF wfNode_isLive[OF wf] nc pre_le_path[OF tk]])
  then show ?thesis
    unfolding get_lookup[OF vp wf tk] by (simp split: option.splits)
qed

lemma livingChildren_exists:
  assumes "0 < livingChildren cs"
  shows "\<exists>j < length cs. cs ! j \<noteq> Nil_node"
proof -
  have "{i. i < length cs \<and> cs ! i \<noteq> Nil_node} \<noteq> {}"
    using assms unfolding livingChildren_card by (metis card.empty less_numeral_extra(3))
  then show ?thesis by auto
qed

lemma livingChildren_one_unique:
  assumes "livingChildren cs = 1" "j < length cs" "cs ! j \<noteq> Nil_node" "i < length cs" "i \<noteq> j"
  shows "cs ! i = Nil_node"
proof (rule ccontr)
  assume ne: "cs ! i \<noteq> Nil_node"
  let ?S = "{i. i < length cs \<and> cs ! i \<noteq> Nil_node}"
  have "card ?S = 1" using assms(1) by (simp only: livingChildren_card)
  then obtain x where x: "?S = {x}" by (rule card_1_singletonE)
  have "j \<in> ?S" "i \<in> ?S" using assms(2,3,4) ne by simp_all
  then have "j = x" "i = x" unfolding x by simp_all
  then show False using assms(5) by simp
qed

lemma wfNode_Full_update_Nil:
  assumes wf: "wfNode pre (Full k cs ver)"
    and liv': "2 \<le> livingChildren (cs[r := Nil_node])"
  shows "wfNode pre (Full k (cs[r := Nil_node]) ver')"
proof -
  from wf have cs: "length cs = 16" and rest: "\<forall>x \<in> set k. x < 16" "length pre + length k < 64"
    and wc: "wfChildren (pre @ k) 0 cs"
    by (auto simp: NumChildren_def)
  have "wfChildren (pre @ k) 0 (cs[r := Nil_node])"
    unfolding wfChildren_iff
  proof (intro allI impI)
    fix i assume i: "i < length (cs[r := Nil_node])"
    show "cs[r := Nil_node] ! i = Nil_node \<or> wfNode ((pre @ k) @ [of_nat (0 + i)]) (cs[r := Nil_node] ! i)"
    proof (cases "i = r")
      case True
      then show ?thesis using i by simp
    next
      case False
      then show ?thesis using wc i by (simp add: wfChildren_iff)
    qed
  qed
  then show ?thesis using cs rest liv' by (simp add: NumChildren_def)
qed

lemma lookup_Full_update:
  assumes csN: "length cs = NumChildren" and r16: "r < 16"
    and lc: "\<forall>q. lookup c' q = (if q = key' then x else lookup (cs ! unat r) q)"
  shows "lookup (Full k (cs[unat r := c']) ver') q =
         (if q = k @ r # key' then x else lookup (Full k cs ver) q)"
proof -
  have csN': "length (cs[unat r := c']) = NumChildren" using csN by simp
  have ur: "unat r < length cs" using r16 csN by (simp add: unat_nibble NumChildren_def)
  show ?thesis
  proof (cases "take (length k) q = k \<and> length k < length q \<and> q ! length k < 16")
    case False
    then have "q \<noteq> k @ r # key'" using r16 by (auto simp: eq_append_Cons_iff)
    moreover have "lookup (Full k (cs[unat r := c']) ver') q = None"
      unfolding lookup_Full_child[OF csN'] by (simp only: False if_False)
    moreover have "lookup (Full k cs ver) q = None"
      unfolding lookup_Full_child[OF csN] by (simp only: False if_False)
    ultimately show ?thesis by simp
  next
    case True
    show ?thesis
    proof (cases "q ! length k = r")
      case False
      then have "unat (q ! length k) \<noteq> unat r" by (simp add: unat_eq_nibble)
      moreover have "q \<noteq> k @ r # key'" using False by (auto simp: eq_append_Cons_iff)
      ultimately show ?thesis using True
        unfolding lookup_Full_child[OF csN'] lookup_Full_child[OF csN] by simp
    next
      case qr: True
      have "q = k @ r # key' \<longleftrightarrow> drop (Suc (length k)) q = key'"
        using True qr by (simp add: eq_append_Cons_iff)
      then show ?thesis using True qr ur lc
        unfolding lookup_Full_child[OF csN'] lookup_Full_child[OF csN]
        by simp
    qed
  qed
qed

lemma take_prefix_split:
  assumes "take (length (pre @ k @ [r])) p = pre @ k @ [r]"
  shows "take (length pre) p = pre" "\<exists>x. drop (length pre) p = k @ r # x"
proof -
  have "take (length (pre @ k @ [r])) p @ drop (length (pre @ k @ [r])) p = p"
    by (rule append_take_drop_id)
  then have e: "(pre @ k @ [r]) @ drop (length (pre @ k @ [r])) p = p"
    unfolding assms .
  define x where "x = drop (length (pre @ k @ [r])) p"
  have p: "p = pre @ k @ r # x" using e by (simp add: x_def)
  show "take (length pre) p = pre" unfolding p by simp
  show "\<exists>x. drop (length pre) p = k @ r # x" unfolding p by simp
qed

lemma Full_collapse_spec:
  assumes wf: "wfNode pre (Full k cs ver)" and ur: "unat r < length cs"
    and one: "livingChildren (cs[unat r := Nil_node]) = 1"
  shows "\<exists>a. replaceChild t k cs Nil_node r path = Inr a \<and> wfNode pre a \<and>
           (\<forall>q. lookup a q = lookup (Full k (cs[unat r := Nil_node]) ver) q)"
proof -
  let ?cs = "cs[unat r := Nil_node]"
  from wf have cs: "length cs = 16" and k16: "\<forall>x \<in> set k. x < 16"
    and wc: "wfChildren (pre @ k) 0 cs"
    by (auto simp: NumChildren_def)
  have csN': "length ?cs = NumChildren" using cs by (simp add: NumChildren_def)
  from livingChildren_exists[of ?cs] one obtain j where j: "j < length ?cs" "?cs ! j \<noteq> Nil_node"
    by auto
  have jr: "j \<noteq> unat r" using j ur by auto
  have jcs: "j < length cs" using j by simp
  have j16: "j < 16" using jcs cs by simp
  have same: "?cs ! j = cs ! j" using jr by simp
  define jb :: byte where "jb = of_nat j"
  have ujb: "unat jb = j" unfolding jb_def using j16 by (simp add: unsigned_of_nat take_bit_nat_eq_self)
  have jb16: "jb < 16" using ujb j16 by (simp add: word_less_nat_alt)
  have "cs ! j = Nil_node \<or> wfNode ((pre @ k) @ [of_nat (0 + j)]) (cs ! j)"
    using wc jcs unfolding wfChildren_iff by blast
  then have wj: "wfNode (pre @ k @ [jb]) (?cs ! j)"
    using j(2) same by (simp add: jb_def)
  have live: "isLive (?cs ! j)" by (rule wfNode_isLive[OF wj])
  have rc: "replaceChild t k cs Nil_node r path = prependToKey (?cs ! j) k (int j) (version t)"
    by (rule replaceChild_collapse[OF ur one jcs j(2) live])
  from prependToKey_spec[OF wj jb16 k16, of "version t"] obtain a where
    a: "prependToKey (?cs ! j) k (int (unat jb)) (version t) = Inr a \<and> wfNode pre a \<and>
       (\<forall>q. lookup a q =
             (if take (Suc (length k)) q = k @ [jb] \<and> Suc (length k) \<le> length q
              then lookup (?cs ! j) (drop (Suc (length k)) q) else None))"
    by (elim exE) (rule that)
  note a1 = a[THEN conjunct1] and a2 = a[THEN conjunct2, THEN conjunct1]
    and a3 = a[THEN conjunct2, THEN conjunct2, rule_format]
  have r1: "replaceChild t k cs Nil_node r path = Inr a"
    using rc a1 by (simp only: ujb)
  have "lookup a q = lookup (Full k ?cs ver) q" for q
  proof (cases "take (length k) q = k \<and> length k < length q \<and> q ! length k < 16")
    case False
    have "\<not> (take (Suc (length k)) q = k @ [jb] \<and> Suc (length k) \<le> length q)"
    proof
      assume h: "take (Suc (length k)) q = k @ [jb] \<and> Suc (length k) \<le> length q"
      then have lt: "length k < length q" by simp
      from h have "take (length k) q @ [q ! length k] = k @ [jb]"
        using lt by (simp add: take_Suc_conv_app_nth)
      then have "take (length k) q = k" "q ! length k = jb" by simp_all
      then show False using False lt jb16 by simp
    qed
    then have "lookup a q = None" unfolding a3 by (simp only: if_False)
    moreover have "lookup (Full k ?cs ver) q = None"
      unfolding lookup_Full_child[OF csN'] by (simp only: False if_False)
    ultimately show ?thesis by simp
  next
    case True
    then have lt: "length k < length q" and tk: "take (length k) q = k" by simp_all
    have ts: "take (Suc (length k)) q = k @ [q ! length k]"
      using lt tk by (simp add: take_Suc_conv_app_nth)
    show ?thesis
    proof (cases "q ! length k = jb")
      case qj: True
      have "lookup a q = lookup (?cs ! j) (drop (Suc (length k)) q)"
        unfolding a3 using ts qj lt by simp
      moreover have "lookup (Full k ?cs ver) q = lookup (?cs ! j) (drop (Suc (length k)) q)"
        unfolding lookup_Full_child[OF csN'] using True qj ujb by simp
      ultimately show ?thesis by simp
    next
      case qj: False
      have "lookup a q = None" unfolding a3 using ts qj by simp
      have u16: "unat (q ! length k) < length ?cs"
        using True csN' by (simp add: unat_nibble NumChildren_def)
      have "unat (q ! length k) \<noteq> unat jb" using qj by (simp add: unat_eq_nibble)
      then have "unat (q ! length k) \<noteq> j" unfolding ujb .
      then have "?cs ! unat (q ! length k) = Nil_node"
        by (rule livingChildren_one_unique[OF one j(1) j(2) u16])
      then have "lookup (Full k ?cs ver) q = None"
        unfolding lookup_Full_child[OF csN'] by simp
      then show ?thesis using \<open>lookup a q = None\<close> by simp
    qed
  qed
  then show ?thesis using r1 a2 by blast
qed

lemma remove_spec:
  assumes vp: "validPath path"
  shows "wfNode pre n \<Longrightarrow> take (length pre) path = pre \<Longrightarrow>
    (case remove t n path (length pre) of
       Removed n' dk \<Rightarrow>
         lookup n (drop (length pre) path) \<noteq> None \<and>
         (\<forall>q. lookup n' q = (if q = drop (length pre) path then None else lookup n q)) \<and>
         (if n' = Nil_node then (\<forall>(p, v) \<in> set dk. validPath p \<and> take (length pre) p = pre)
          else wfNode pre n' \<and> dk = [])
     | NotRemoved \<Rightarrow> lookup n (drop (length pre) path) = None
     | RemoveFailed e \<Rightarrow> False)"
proof (induction n arbitrary: pre)
  case Nil_node
  then show ?case by simp
next
  case (Stored h l ver0)
  then show ?case by simp
next
  case (Leaf k nv ver0)
  show ?case
  proof (cases "PrefixContainedIn (Leaf k nv ver0) path (length pre)")
    case False
    have "remove t (Leaf k nv ver0) path (length pre) = NotRemoved"
      by (rule remove_not_contained[OF wfNode_isLive[OF Leaf.prems(1)] False pre_le_path[OF Leaf.prems(2)]])
    moreover have "lookup (Leaf k nv ver0) (drop (length pre) path) = None"
      by (rule lookup_not_contained[OF vp Leaf.prems(1,2) False])
    ultimately show ?thesis by (simp only: removeResult.case)
  next
    case True
    from Leaf.prems have len: "length pre + length k = 65" and nd: "nv \<noteq> deletedValue" by simp_all
    have "take (length k) (drop (length pre) path) = drop (length pre) path"
      using len vp by simp
    with True have k: "drop (length pre) path = k" by (simp add: prefixContainedIn_iff)
    have c: "prefixContainedIn k path (length pre)" using True by simp
    have u: "remove t (Leaf k nv ver0) path (length pre) = Removed Nil_node (NewKeySet path (version t))"
      using remove_Leaf[OF pre_le_path[OF Leaf.prems(2)] c, of t nv ver0] nd
      by (simp add: wasDeleted_def)
    show ?thesis unfolding u using k vp Leaf.prems(2) by (simp add: NewKeySet_def)
  qed
next
  case (WithDeletedKeys n0 ks)
  from WithDeletedKeys.prems have wn: "wfNode pre n0"
    and kk: "\<forall>(p, v) \<in> set ks. validPath p \<and> take (length pre) p = pre \<and> lookup n0 (drop (length pre) p) = None"
    by auto
  show ?case
  proof (cases "PrefixContainedIn (WithDeletedKeys n0 ks) path (length pre)")
    case False
    have "remove t (WithDeletedKeys n0 ks) path (length pre) = NotRemoved"
      by (rule remove_not_contained[OF wfNode_isLive[OF WithDeletedKeys.prems(1)] False
            pre_le_path[OF WithDeletedKeys.prems(2)]])
    moreover have "lookup (WithDeletedKeys n0 ks) (drop (length pre) path) = None"
      by (rule lookup_not_contained[OF vp WithDeletedKeys.prems(1,2) False])
    ultimately show ?thesis by (simp only: removeResult.case)
  next
    case True
    have c: "PrefixContainedIn n0 path (length pre)" using True by simp
    note u = remove_WDK[OF pre_le_path[OF WithDeletedKeys.prems(2)] wfNode_isLive[OF wn] c, of t ks]
    note ih = WithDeletedKeys.IH[OF wn WithDeletedKeys.prems(2)]
    show ?thesis
    proof (cases "KeySet_Contains ks path")
      case True
      then obtain v where "(path, v) \<in> set ks" by (auto simp: KeySet_Contains_iff)
      with kk have "lookup n0 (drop (length pre) path) = None" by auto
      then show ?thesis using u True by simp
    next
      case nc: False
      show ?thesis
      proof (cases "remove t n0 path (length pre)")
        case (Removed a dk)
        with ih have l0: "lookup n0 (drop (length pre) path) \<noteq> None"
          and la: "\<forall>q. lookup a q = (if q = drop (length pre) path then None else lookup n0 q)"
          and post: "if a = Nil_node then (\<forall>(p, v) \<in> set dk. validPath p \<and> take (length pre) p = pre)
                     else wfNode pre a \<and> dk = []"
          by simp_all
        show ?thesis
        proof (cases "a = Nil_node")
          case True
          with post have pd: "\<forall>(p, v) \<in> set dk. validPath p \<and> take (length pre) p = pre" by simp
          have pm: "\<forall>(p, v) \<in> set (KeySet_Merge ks dk). validPath p \<and> take (length pre) p = pre"
          proof (clarify)
            fix p v assume "(p, v) \<in> set (KeySet_Merge ks dk)"
            then have "(p, v) \<in> set ks \<or> (p, v) \<in> set dk"
              using KeySet_Merge_subset[of ks dk] by auto
            then show "validPath p \<and> take (length pre) p = pre" using kk pd by auto
          qed
          have e: "remove t (WithDeletedKeys n0 ks) path (length pre)
                   = Removed Nil_node (KeySet_Merge ks dk)"
            using u nc Removed True by simp
          have la': "\<forall>q. lookup Nil_node q = (if q = drop (length pre) path then None else lookup n0 q)"
            using la unfolding True .
          have l0': "lookup (WithDeletedKeys n0 ks) (drop (length pre) path) \<noteq> None"
            using l0 by simp
          have la'': "\<forall>q. lookup Nil_node q =
                       (if q = drop (length pre) path then None else lookup (WithDeletedKeys n0 ks) q)"
            unfolding lookup.simps(4) by (rule la')
          have pm': "if Nil_node = Nil_node
                     then (\<forall>(p, v) \<in> set (KeySet_Merge ks dk). validPath p \<and> take (length pre) p = pre)
                     else wfNode pre Nil_node \<and> KeySet_Merge ks dk = []"
            using pm by simp
          show ?thesis unfolding e removeResult.case
            by (intro conjI) (rule l0', rule la'', rule pm')
        next
          case False
          with post have wa: "wfNode pre a" and dk: "dk = []" by simp_all
          have "\<forall>(p, v) \<in> set ks. validPath p \<and> take (length pre) p = pre \<and> lookup a (drop (length pre) p) = None"
            using kk la by auto
          then have "wfNode pre (WithDeletedKeys a ks)" using wa by simp
          then show ?thesis using u nc Removed False l0 la dk by (simp add: noDeletedKeys_def)
        qed
      next
        case NotRemoved
        then show ?thesis using u nc ih by simp
      next
        case (RemoveFailed e)
        then show ?thesis using ih by simp
      qed
    qed
  qed
next
  case (Full k cs ver0)
  show ?case
  proof (cases "PrefixContainedIn (Full k cs ver0) path (length pre)")
    case False
    have "remove t (Full k cs ver0) path (length pre) = NotRemoved"
      by (rule remove_not_contained[OF wfNode_isLive[OF Full.prems(1)] False pre_le_path[OF Full.prems(2)]])
    moreover have "lookup (Full k cs ver0) (drop (length pre) path) = None"
      by (rule lookup_not_contained[OF vp Full.prems(1,2) False])
    ultimately show ?thesis by (simp only: removeResult.case)
  next
    case True
    from Full.prems have cs: "length cs = 16" and len: "length pre + length k < 64"
      and liv: "2 \<le> livingChildren cs" and wc: "wfChildren (pre @ k) 0 cs"
      by (auto simp: NumChildren_def)
    have csN: "length cs = NumChildren" using cs by (simp add: NumChildren_def)
    have c: "prefixContainedIn k path (length pre)" using True by simp
    then have tk: "take (length k) (drop (length pre) path) = k"
      by (simp add: prefixContainedIn_iff)
    define i where "i = length pre + length k"
    define r where "r = path ! i"
    define child where "child = cs ! unat r"
    define pre' where "pre' = pre @ k @ [r]"
    define key' where "key' = drop (Suc i) path"
    have i64: "i < 64" using len by (simp add: i_def)
    have ilen: "i < length path" using i64 vp by simp
    have r16: "r < 16" unfolding r_def by (rule validPath_nibble[OF vp i64])
    have ur: "unat r < length cs" using r16 cs by (simp add: unat_nibble)
    have lpre': "length pre' = Suc i" by (simp add: pre'_def i_def)
    have tpre': "take (length pre') path = pre'"
      unfolding pre'_def r_def i_def
      using take_extend[OF Full.prems(2) tk] ilen by (simp add: i_def)
    have dd: "drop (length pre) path = k @ r # key'"
      unfolding r_def key'_def i_def
      using drop_path_decompose[OF tk] ilen by (simp add: i_def)
    have u: "remove t (Full k cs ver0) path (length pre) =
       (case remove t child path (Suc i) of
          Removed afterChild deletedKeys \<Rightarrow>
            (case replaceChild t k cs afterChild r (take (length pre) path) of
               Inl e \<Rightarrow> RemoveFailed e
             | Inr a \<Rightarrow>
                 if length deletedKeys = 0 then Removed a noDeletedKeys
                 else Removed (WithDeletedKeys a deletedKeys) noDeletedKeys)
        | NotRemoved \<Rightarrow> NotRemoved
        | RemoveFailed e \<Rightarrow> RemoveFailed e)"
      unfolding child_def r_def i_def
      using remove_Full[OF pre_le_path[OF Full.prems(2)] c, of cs t ver0]
        ilen[unfolded i_def] ur[unfolded r_def i_def]
      by simp
    have lch: "lookup (Full k cs ver0) (k @ r # key') = lookup child key'"
      unfolding lookup_Full_child[OF csN] using r16 by (simp add: child_def)
    have R: "(case remove t child path (Suc i) of
       Removed c' dk \<Rightarrow>
         lookup child key' \<noteq> None \<and>
         (\<forall>q. lookup c' q = (if q = key' then None else lookup child q)) \<and>
         (if c' = Nil_node then (\<forall>(p, v) \<in> set dk. validPath p \<and> take (length pre') p = pre')
          else wfNode pre' c' \<and> dk = [])
     | NotRemoved \<Rightarrow> lookup child key' = None
     | RemoveFailed e \<Rightarrow> False)"
    proof (cases "child = Nil_node")
      case True
      have "remove t Nil_node path (Suc i) = NotRemoved"
        using remove_not_contained[of Nil_node path "Suc i" t] ilen by simp
      then show ?thesis unfolding True by simp
    next
      case False
      have "wfNode (pre @ k @ [r]) (cs ! unat r)"
        using wc ur False by (auto simp: wfChildren_iff child_def)
      then have wch: "wfNode pre' child" by (simp add: pre'_def child_def)
      have "child \<in> set cs" using ur by (simp add: child_def)
      from Full.IH[OF this wch tpre'] show ?thesis unfolding key'_def lpre'[symmetric] .
    qed
    show ?thesis
    proof (cases "remove t child path (Suc i)")
      case (Removed c' dk)
      with R have l0: "lookup child key' \<noteq> None"
        and lc': "\<forall>q. lookup c' q = (if q = key' then None else lookup child q)"
        and post: "if c' = Nil_node then (\<forall>(p, v) \<in> set dk. validPath p \<and> take (length pre') p = pre')
                   else wfNode pre' c' \<and> dk = []"
        by simp_all
      have chne: "child \<noteq> Nil_node" using l0 by auto
      have lc'': "\<forall>q. lookup c' q = (if q = key' then None else lookup (cs ! unat r) q)"
        using lc' by (simp add: child_def)
      have lk: "lookup (Full k (cs[unat r := c']) ver0) q =
                (if q = k @ r # key' then None else lookup (Full k cs ver0) q)" for q
        by (rule lookup_Full_update[OF csN r16 lc''])
      have A: "\<exists>a. replaceChild t k cs c' r (take (length pre) path) = Inr a \<and> wfNode pre a \<and>
           (\<forall>q. lookup a q = lookup (Full k (cs[unat r := c']) ver0) q)"
      proof (cases "c' = Nil_node")
        case False
        with post have wc': "wfNode pre' c'" by simp
        have "2 \<le> livingChildren (cs[unat r := c'])"
          using livingChildren_update_live[OF ur False] liv by (simp split: if_splits)
        from replaceChild_keep[OF ur this]
        have e1: "replaceChild t k cs c' r (take (length pre) path)
                  = Inr (Full k (cs[unat r := c']) (version t))" .
        have e2: "wfNode pre (Full k (cs[unat r := c']) (version t))"
          using wfNode_Full_update[OF Full.prems(1) r16] wc' by (simp add: pre'_def)
        have e3: "\<forall>q. lookup (Full k (cs[unat r := c']) (version t)) q
                     = lookup (Full k (cs[unat r := c']) ver0) q" by simp
        show ?thesis by (intro exI conjI) (rule e1, rule e2, rule e3)
      next
        case True
        have s: "Suc (livingChildren (cs[unat r := Nil_node])) = livingChildren cs"
          using livingChildren_update_Nil[OF ur] chne by (simp add: child_def)
        show ?thesis
        proof (cases "2 \<le> livingChildren (cs[unat r := Nil_node])")
          case ge: True
          from replaceChild_keep[OF ur ge]
          have e1: "replaceChild t k cs Nil_node r (take (length pre) path)
                    = Inr (Full k (cs[unat r := Nil_node]) (version t))" .
          have e2: "wfNode pre (Full k (cs[unat r := Nil_node]) (version t))"
            by (rule wfNode_Full_update_Nil[OF Full.prems(1) ge])
          have e3: "\<forall>q. lookup (Full k (cs[unat r := Nil_node]) (version t)) q
                       = lookup (Full k (cs[unat r := Nil_node]) ver0) q" by simp
          show ?thesis unfolding True by (intro exI conjI) (rule e1, rule e2, rule e3)
        next
          case False
          then have one: "livingChildren (cs[unat r := Nil_node]) = 1" using s liv by arith
          show ?thesis unfolding True by (rule Full_collapse_spec[OF Full.prems(1) ur one])
        qed
      qed
      then obtain a where aall: "replaceChild t k cs c' r (take (length pre) path) = Inr a \<and> wfNode pre a \<and>
           (\<forall>q. lookup a q = lookup (Full k (cs[unat r := c']) ver0) q)"
        by (elim exE) (rule that)
      note a1 = aall[THEN conjunct1] and a2 = aall[THEN conjunct2, THEN conjunct1]
        and a3 = aall[THEN conjunct2, THEN conjunct2, rule_format]
      have ane: "a \<noteq> Nil_node" using a2 by auto
      have la: "\<forall>q. lookup a q = (if q = drop (length pre) path then None else lookup (Full k cs ver0) q)"
        unfolding a3 lk dd by simp
      have l1: "lookup (Full k cs ver0) (drop (length pre) path) \<noteq> None"
        unfolding dd lch by (rule l0)
      show ?thesis
      proof (cases "dk = []")
        case True
        have e: "remove t (Full k cs ver0) path (length pre) = Removed a []"
          unfolding u Removed using a1 True by (simp add: noDeletedKeys_def)
        show ?thesis unfolding e using l1 la a2 ane by simp
      next
        case False
        have e: "remove t (Full k cs ver0) path (length pre) = Removed (WithDeletedKeys a dk) []"
          unfolding u Removed using a1 False by (simp add: noDeletedKeys_def)
        have cn: "c' = Nil_node" using post False by (auto split: if_splits)
        have pd: "\<forall>(p, v) \<in> set dk. validPath p \<and> take (length pre') p = pre'"
          using post cn by simp
        have "\<forall>(p, v) \<in> set dk. validPath p \<and> take (length pre) p = pre \<and> lookup a (drop (length pre) p) = None"
        proof (clarify)
          fix p v assume "(p, v) \<in> set dk"
          with pd have vpp: "validPath p" and tp: "take (length pre') p = pre'" by auto
          note sp = take_prefix_split[OF tp[unfolded pre'_def]]
          from sp(2) obtain x where x: "drop (length pre) p = k @ r # x" ..
          have "lookup a (drop (length pre) p) = lookup (Full k (cs[unat r := Nil_node]) ver0) (k @ r # x)"
            unfolding a3 x cn ..
          also have "\<dots> = None" using r16 ur by simp
          finally show "validPath p \<and> take (length pre) p = pre \<and> lookup a (drop (length pre) p) = None"
            using vpp sp(1) by simp
        qed
        then have "wfNode pre (WithDeletedKeys a dk)" using a2 by simp
        then show ?thesis unfolding e using l1 la by simp
      qed
    next
      case NotRemoved
      with R have "lookup child key' = None" by simp
      then show ?thesis using u NotRemoved dd lch by simp
    next
      case (RemoveFailed e)
      then show ?thesis using R by simp
    qed
  qed
qed

lemma byte_div16: "(b::byte) div 16 < 16"
proof -
  have "unat b < 256" using unsigned_less[of b, where 'a=nat] by simp
  then show ?thesis by (simp add: word_less_nat_alt unat_div)
qed

lemma byte_mod16: "(b::byte) mod 16 < 16"
  by (simp add: word_less_nat_alt unat_mod)

lemma byte_div_mod_eq:
  assumes "(a::byte) div 16 = b div 16" "a mod 16 = b mod 16"
  shows "a = b"
proof -
  have "a div 16 * 16 + a mod 16 = a" by (rule div_mult_mod_eq)
  moreover have "b div 16 * 16 + b mod 16 = b" by (rule div_mult_mod_eq)
  ultimately show ?thesis unfolding assms by simp
qed

lemma nibbles_length: "length (concat (map (\<lambda>b. [b div 16, b mod 16]) (kb::bytes))) = 2 * length kb"
  by (induction kb) simp_all

lemma nibbles_lt16: "\<forall>x \<in> set (concat (map (\<lambda>b. [b div 16, b mod 16]) (kb::bytes))). x < 16"
  by (induction kb) (simp_all add: byte_div16 byte_mod16)

lemma nibbles_inj:
  "concat (map (\<lambda>b. [b div 16, b mod 16]) (a::bytes)) = concat (map (\<lambda>b. [b div 16, b mod 16]) b)
   \<Longrightarrow> a = b"
proof (induction a arbitrary: b)
  case Nil
  then show ?case by (cases b) simp_all
next
  case (Cons x xs)
  then show ?case by (cases b) (auto intro: byte_div_mod_eq)
qed

lemma Keybytes_Hex_inj: "Keybytes_Hex a = Keybytes_Hex b \<Longrightarrow> a = b"
  by (simp add: Keybytes_Hex_def nibbles_inj)

lemma validPath_Keybytes_Hex:
  assumes "length kb = 32"
  shows "validPath (Keybytes_Hex kb)"
proof -
  let ?b = "concat (map (\<lambda>b. [b div 16, b mod 16]) kb)"
  have l: "length ?b = 64" using assms by (simp add: nibbles_length)
  have "\<forall>i<64. (?b @ [16]) ! i < 16"
  proof (intro allI impI)
    fix i :: nat assume i: "i < 64"
    then have "(?b @ [16]) ! i = ?b ! i" using l by (simp add: nth_append)
    moreover have "i < length ?b" using i l by (simp only:)
    then have m: "?b ! i \<in> set ?b" by (rule nth_mem)
    have "?b ! i < 16" by (rule bspec[OF nibbles_lt16 m])
    ultimately show "(?b @ [16]) ! i < 16" by (simp only:)
  qed
  moreover have "(?b @ [16]) ! 64 = 16" using l by (simp add: nth_append)
  ultimately show ?thesis unfolding validPath_def Keybytes_Hex_def using l by simp
qed

lemma wfRoot_cases:
  assumes "wfRoot r"
  obtains (empty) "r = Nil_node"
        | (tree) "wfNode [] r"
        | (tombs) ks where "r = WithDeletedKeys Nil_node ks" "\<forall>(p, v) \<in> set ks. validPath p"
  using assms unfolding wfRoot_def by blast


lemma update_root_spec:
  assumes vp: "validPath path" and val: "value \<noteq> deletedValue" and wf: "wfRoot r"
  shows "(case update t r path 0 value of
       Updated n' \<Rightarrow> wfNode [] n' \<and>
         (\<forall>q. lookup n' q = (if q = path then Some value else lookup r q))
     | Unchanged \<Rightarrow> lookup r path = Some value
     | UpdateFailed e \<Rightarrow> False)"
  using wf
proof (cases rule: wfRoot_cases)
  case empty
  have p64: "length ([]::hex) \<le> 64" by simp
  have tk: "take (length ([]::hex)) path = []" by simp
  from update_Nil_spec[OF vp val tk p64, of t]
  show ?thesis unfolding empty by simp
next
  case tree
  have tk: "take (length ([]::hex)) path = []" by simp
  have e0: "length ([]::hex) = 0" "drop 0 path = path" by simp_all
  note us = update_spec[OF vp val tree tk, of t, unfolded e0]
  show ?thesis by (rule us)
next
  case (tombs ks)
  have wl: "wfNode [] (Leaf path value (version t))"
    using update_Nil_spec(2)[OF vp val, of "[]" t] by simp
  have u: "update t r path 0 value =
        (case AddSibling (WithDeletedKeys Nil_node ks) path path value (version t) of
           Inl e \<Rightarrow> UpdateFailed e | Inr a \<Rightarrow> Updated a)"
    unfolding tombs using update_not_contained[of "WithDeletedKeys Nil_node ks" path 0 t "value"] by simp
  show ?thesis
  proof (cases "KeySet_Contains ks path")
    case False
    then have "path \<notin> fst ` set ks" by (simp add: KeySet_Contains_iff)
    then have "\<forall>(p, v) \<in> set ks. p \<noteq> path" by force
    then have "wfNode [] (WithDeletedKeys (Leaf path value (version t)) ks)"
      using wl tombs(2) by auto
    then show ?thesis unfolding u using False tombs(1) by simp
  next
    case True
    have "\<forall>(p, v) \<in> set (KeySet_Remove ks path). p \<noteq> path \<and> validPath p"
      using tombs(2) by (auto simp: KeySet_Remove_set)
    then have "wfNode [] (WithDeletedKeys (Leaf path value (version t)) (KeySet_Remove ks path))"
      using wl by auto
    then show ?thesis unfolding u using True tombs(1) wl by (simp add: Let_def)
  qed
qed

lemma remove_root_spec:
  assumes vp: "validPath path" and wf: "wfRoot r"
  shows "(case remove t r path 0 of
       Removed n' dk \<Rightarrow>
         lookup r path \<noteq> None \<and>
         (\<forall>q. lookup n' q = (if q = path then None else lookup r q)) \<and>
         (if n' = Nil_node then (\<forall>(p, v) \<in> set dk. validPath p) else wfNode [] n' \<and> dk = [])
     | NotRemoved \<Rightarrow> lookup r path = None
     | RemoveFailed e \<Rightarrow> False)"
  using wf
proof (cases rule: wfRoot_cases)
  case empty
  then show ?thesis using remove_not_contained[of Nil_node path 0 t] by simp
next
  case tree
  have tk: "take (length ([]::hex)) path = []" by simp
  have e0: "length ([]::hex) = 0" "drop 0 path = path" by simp_all
  note rs = remove_spec[OF vp tree tk, of t, unfolded e0]
  show ?thesis
  proof (cases "remove t r path 0")
    case (Removed n' dk)
    note rs' = rs[unfolded Removed removeResult.case]
    note a = rs'[THEN conjunct1] and b = rs'[THEN conjunct2, THEN conjunct1]
      and c = rs'[THEN conjunct2, THEN conjunct2]
    have c': "if n' = Nil_node then (\<forall>(p, v) \<in> set dk. validPath p) else wfNode [] n' \<and> dk = []"
      using c by (auto split: if_splits)
    show ?thesis unfolding Removed removeResult.case
      by (intro conjI) (rule a, rule b, rule c')
  next
    case NotRemoved
    then show ?thesis using rs by simp
  next
    case (RemoveFailed e)
    then show ?thesis using rs by simp
  qed
next
  case (tombs ks)
  then show ?thesis using remove_not_contained[of "WithDeletedKeys Nil_node ks" path 0 t] by simp
qed

lemma checkKey_valid: "length kb = 32 \<Longrightarrow> checkKey (Some kb) = None"
  by (simp add: checkKey_def keySize_def)

lemma checkValue_valid: "vb \<noteq> deletedValue \<Longrightarrow> checkValue (Some vb) = None"
  by (simp add: checkValue_def)


lemma Update_spec:
  assumes len: "length kb = 32" and val: "vb \<noteq> deletedValue" and wf: "wfRoot (root t)"
  shows "fst (Update t (Some kb) (Some vb)) = None \<and>
         wfRoot (root (snd (Update t (Some kb) (Some vb)))) \<and>
         (\<forall>q. lookup (root (snd (Update t (Some kb) (Some vb)))) q =
              (if q = Keybytes_Hex kb then Some vb else lookup (root t) q))"
proof -
  define path where "path = Keybytes_Hex kb"
  note u = update_root_spec[OF validPath_Keybytes_Hex[OF len] val wf, of t, folded path_def]
  have U: "Update t (Some kb) (Some vb) =
      (case update t (root t) path 0 vb of
         Updated updated \<Rightarrow> (None, t\<lparr>root := updated\<rparr>)
       | Unchanged \<Rightarrow> (None, t)
       | UpdateFailed err \<Rightarrow> (Some err, t))"
    unfolding Update_def checkKey_valid[OF len] checkValue_valid[OF val] path_def
    by (simp add: sliceOf_def)
  show ?thesis
  proof (cases "update t (root t) path 0 vb")
    case (Updated n')
    note u' = u[unfolded Updated updateResult.case]
    have e: "Update t (Some kb) (Some vb) = (None, t\<lparr>root := n'\<rparr>)"
      unfolding U Updated by simp
    have "wfRoot n'" using u'[THEN conjunct1] by (simp add: wfRoot_def)
    then show ?thesis unfolding e path_def[symmetric] using u'[THEN conjunct2] by simp
  next
    case Unchanged
    note u' = u[unfolded Unchanged updateResult.case]
    have e: "Update t (Some kb) (Some vb) = (None, t)"
      unfolding U Unchanged by simp
    show ?thesis unfolding e path_def[symmetric] using u' wf by simp
  next
    case (UpdateFailed x)
    then show ?thesis using u by simp
  qed
qed


lemma Remove_spec:
  assumes len: "length kb = 32" and wf: "wfRoot (root t)"
  shows "fst (Remove t (Some kb)) = None \<and>
         wfRoot (root (snd (Remove t (Some kb)))) \<and>
         (\<forall>q. lookup (root (snd (Remove t (Some kb)))) q =
              (if q = Keybytes_Hex kb then None else lookup (root t) q)) \<and>
         (lookup (root t) (Keybytes_Hex kb) = None \<longrightarrow> Remove t (Some kb) = (None, t))"
proof -
  define path where "path = Keybytes_Hex kb"
  note r = remove_root_spec[OF validPath_Keybytes_Hex[OF len] wf, of t, folded path_def]
  have R: "Remove t (Some kb) =
      (case remove t (root t) path 0 of
         Removed newRoot deletedKeys \<Rightarrow>
           if newRoot = Nil_node \<and> 0 < length deletedKeys
           then (None, t\<lparr>root := WithDeletedKeys newRoot deletedKeys\<rparr>)
           else (None, t\<lparr>root := newRoot\<rparr>)
       | NotRemoved \<Rightarrow> (None, t)
       | RemoveFailed err \<Rightarrow> (Some err, t))"
    unfolding Remove_def checkKey_valid[OF len] path_def
    by (simp add: sliceOf_def)
  show ?thesis
  proof (cases "remove t (root t) path 0")
    case (Removed n' dk)
    note r' = r[unfolded Removed removeResult.case]
    note a = r'[THEN conjunct1] and b = r'[THEN conjunct2, THEN conjunct1]
      and c = r'[THEN conjunct2, THEN conjunct2]
    show ?thesis
    proof (cases "n' = Nil_node \<and> 0 < length dk")
      case True
      have e: "Remove t (Some kb) = (None, t\<lparr>root := WithDeletedKeys Nil_node dk\<rparr>)"
        unfolding R Removed using True by simp
      have "\<forall>(p, v) \<in> set dk. validPath p" using c True by simp
      then have w: "wfRoot (WithDeletedKeys Nil_node dk)" by (simp add: wfRoot_def)
      have l: "\<forall>q. lookup (WithDeletedKeys Nil_node dk) q = (if q = path then None else lookup (root t) q)"
        using b True by simp
      show ?thesis unfolding e path_def[symmetric] using w l a by auto
    next
      case False
      have e: "Remove t (Some kb) = (None, t\<lparr>root := n'\<rparr>)"
        unfolding R Removed removeResult.case by (simp only: False if_False)
      have w: "wfRoot n'" using c by (auto simp: wfRoot_def split: if_splits)
      show ?thesis unfolding e path_def[symmetric] using w b a by auto
    qed
  next
    case NotRemoved
    note r' = r[unfolded NotRemoved removeResult.case]
    have e: "Remove t (Some kb) = (None, t)" unfolding R NotRemoved by simp
    show ?thesis unfolding e path_def[symmetric] using r' wf by simp
  next
    case (RemoveFailed x)
    then show ?thesis using r by simp
  qed
qed

lemma Update_invalid:
  assumes "\<not> (\<exists>kb vb. k = Some kb \<and> v = Some vb \<and> length kb = 32 \<and> vb \<noteq> deletedValue)"
  shows "snd (Update t k v) = t"
  using assms
  by (auto simp: Update_def checkKey_def checkValue_def keySize_def split: option.splits)

lemma Remove_invalid:
  assumes "\<not> (\<exists>kb. k = Some kb \<and> length kb = 32)"
  shows "snd (Remove t k) = t"
  using assms
  by (auto simp: Remove_def checkKey_def keySize_def split: option.splits)

lemma applyOp_wfRoot:
  assumes wf: "wfRoot (root t)"
  shows "wfRoot (root (applyOp t x))"
proof (cases x)
  case (OpUpdate k v)
  show ?thesis
  proof (cases "\<exists>kb vb. k = Some kb \<and> v = Some vb \<and> length kb = 32 \<and> vb \<noteq> deletedValue")
    case True
    then obtain kb vb where kv: "k = Some kb" "v = Some vb" "length kb = 32" "vb \<noteq> deletedValue"
      by (elim exE conjE)
    from Update_spec[OF kv(3,4) wf] show ?thesis unfolding OpUpdate kv(1,2) by simp
  next
    case False
    from Update_invalid[OF False, of t] show ?thesis unfolding OpUpdate using wf by simp
  qed
next
  case (OpRemove k)
  show ?thesis
  proof (cases "\<exists>kb. k = Some kb \<and> length kb = 32")
    case True
    then obtain kb where kv: "k = Some kb" "length kb = 32" by (elim exE conjE)
    from Remove_spec[OF kv(2) wf] show ?thesis unfolding OpRemove kv(1) by simp
  next
    case False
    from Remove_invalid[OF False, of t] show ?thesis unfolding OpRemove using wf by simp
  qed
qed

lemma applyOps_wfRoot: "wfRoot (root t) \<Longrightarrow> wfRoot (root (applyOps t ops))"
  unfolding applyOps_def
  by (induction ops arbitrary: t) (simp_all add: applyOp_wfRoot)

lemma wfRoot_empty: "wfRoot (root (NewEmptyLudicrousTrie f c v))"
  by (simp add: NewEmptyLudicrousTrie_def wfRoot_def)

lemma built_wfRoot: "wfRoot (root (applyOps (NewEmptyLudicrousTrie f c v) ops))"
  by (rule applyOps_wfRoot[OF wfRoot_empty])





lemma lookup_empty: "lookup (root (NewEmptyLudicrousTrie f c v)) q = None"
  by (simp add: NewEmptyLudicrousTrie_def)

section \<open>Order of the storage keys\<close>

lemma bytesLess_append_same: "bytesLess (xs @ ys) (xs @ zs) = bytesLess ys zs"
  by (induction xs) auto

lemma bytesLess_irrefl: "\<not> bytesLess xs xs"
  by (induction xs) auto

lemma digit_lex:
  fixes a b :: nat
  shows "a < b \<Longrightarrow> a div 256 < b div 256 \<or> (a div 256 = b div 256 \<and> a mod 256 < b mod 256)"
  by (metis div_le_mono less_imp_le_nat mod_less_eq_dividend nat_less_le div_mult_mod_eq add_less_cancel_left)

lemma unat_byte_of: "unat (ucast (drop_bit k (v::u32)) :: byte) = (unat v div 2 ^ k) mod 256"
  by (simp only: unsigned_ucast_eq unat_drop_bit_eq) (simp add: take_bit_eq_mod drop_bit_eq_div)

lemma PutUint32_less:
  assumes "v1 < v2"
  shows "bytesLess (PutUint32 v1) (PutUint32 v2)"
proof -
  define a where "a = unat v1"
  define b where "b = unat v2"
  define a1 where "a1 = a div 256"
  define b1 where "b1 = b div 256"
  define a2 where "a2 = a1 div 256"
  define b2 where "b2 = b1 div 256"
  define a3 where "a3 = a2 div 256"
  define b3 where "b3 = b2 div 256"
  have ab: "a < b" using assms by (simp add: a_def b_def word_less_nat_alt)
  have "a < 2 ^ 32" "b < 2 ^ 32"
    using unsigned_less[of v1, where 'a=nat] unsigned_less[of v2, where 'a=nat]
    by (simp_all add: a_def b_def)
  then have small: "a3 < 256" "b3 < 256"
    by (simp_all add: a3_def a2_def a1_def b3_def b2_def b1_def div_mult2_eq less_mult_imp_div_less)
  have e2: "a div 65536 = a2" "b div 65536 = b2"
    by (simp_all add: a2_def a1_def b2_def b1_def div_mult2_eq)
  have e3: "a div 16777216 = a3" "b div 16777216 = b3"
    by (simp_all add: a3_def a2_def a1_def b3_def b2_def b1_def div_mult2_eq)
  have b0: "unat (ucast v1 :: byte) = a mod 256" "unat (ucast v2 :: byte) = b mod 256"
    using unat_byte_of[of 0 v1] unat_byte_of[of 0 v2] by (simp_all add: a_def b_def)
  have b1: "unat (ucast (drop_bit 8 v1) :: byte) = a1 mod 256"
           "unat (ucast (drop_bit 8 v2) :: byte) = b1 mod 256"
    using unat_byte_of[of 8 v1] unat_byte_of[of 8 v2] by (simp_all add: a_def b_def a1_def b1_def)
  have b2: "unat (ucast (drop_bit 16 v1) :: byte) = a2 mod 256"
           "unat (ucast (drop_bit 16 v2) :: byte) = b2 mod 256"
    using unat_byte_of[of 16 v1] unat_byte_of[of 16 v2] e2 by (simp_all add: a_def b_def)
  have b3: "unat (ucast (drop_bit 24 v1) :: byte) = a3"
           "unat (ucast (drop_bit 24 v2) :: byte) = b3"
    using unat_byte_of[of 24 v1] unat_byte_of[of 24 v2] e3 small by (simp_all add: a_def b_def)
  have s0: "a1 < b1 \<or> (a1 = b1 \<and> a mod 256 < b mod 256)"
    using digit_lex[OF ab] by (simp add: a1_def b1_def)
  have s1: "a1 < b1 \<Longrightarrow> a2 < b2 \<or> (a2 = b2 \<and> a1 mod 256 < b1 mod 256)"
    using digit_lex[of a1 b1] by (simp add: a2_def b2_def)
  have s2: "a2 < b2 \<Longrightarrow> a3 < b3 \<or> (a3 = b3 \<and> a2 mod 256 < b2 mod 256)"
    using digit_lex[of a2 b2] by (simp add: a3_def b3_def)
  have t1: "a1 = b1 \<Longrightarrow> a2 = b2" by (simp add: a2_def b2_def)
  have t2: "a2 = b2 \<Longrightarrow> a3 = b3" by (simp add: a3_def b3_def)
  have "a3 < b3 \<or> (a3 = b3 \<and> (a2 mod 256 < b2 mod 256
          \<or> (a2 mod 256 = b2 mod 256 \<and> (a1 mod 256 < b1 mod 256
              \<or> (a1 mod 256 = b1 mod 256 \<and> a mod 256 < b mod 256)))))"
    using s0 s1 s2 t1 t2 by blast
  then show ?thesis
    by (simp add: PutUint32_def word_less_nat_alt word_unat_eq_iff b0 b1 b2 b3)
qed

lemma Key_path_NewKey: "Key_path (kb @ f # PutUint32 v) = kb"
  by (simp add: Key_path_def PutUint32_def)

lemma unat_nib: "a < 16 \<Longrightarrow> b < 16 \<Longrightarrow> unat (push_bit 4 a OR b :: byte) = 16 * unat a + unat b"
proof -
  assume a: "a < 16" and b: "b < 16"
  have "unat (push_bit 4 a OR b) = unat ((push_bit 4 a OR b) div 16) * 16 + unat ((push_bit 4 a OR b) mod 16)"
    by (simp add: unat_div unat_mod)
  then show ?thesis using nib_hi[OF a b] nib_lo[OF a b] by simp
qed

lemma pack_prefix_le:
  "\<forall>x \<in> set q. x < 16 \<Longrightarrow> take (length p) q = p \<Longrightarrow>
   bytesLessEq (packNibbles (padNibbles p)) (packNibbles (padNibbles q))"
proof (induction p arbitrary: q rule: packNibbles.induct)
  case (3 a b rest)
  then obtain q' where q: "q = a # b # q'"
    by (cases q; cases "tl q") auto
  with 3 have "bytesLessEq (packNibbles (padNibbles rest)) (packNibbles (padNibbles q'))" by auto
  then show ?case using q by (auto simp: padNibbles_def bytesLessEq_def)
next
  case 1
  then show ?case by (cases "packNibbles (padNibbles q)") (auto simp: padNibbles_def bytesLessEq_def)
next
  case (2 v)
  then obtain q' where q: "q = v # q'" by (cases q) auto
  show ?case
  proof (cases q')
    case Nil
    then show ?thesis using q by (simp add: padNibbles_def bytesLessEq_def)
  next
    case (Cons e q'')
    with q 2 have v: "v < 16" and e: "e < 16" by auto
    have "unat (push_bit 4 v OR 0 :: byte) \<le> unat (push_bit 4 v OR e)"
      using unat_nib[OF v e] unat_nib[OF v, of 0] by simp
    then have "(push_bit 4 v OR 0 :: byte) \<le> push_bit 4 v OR e" by (simp add: word_le_nat_alt)
    then have "push_bit 4 v < (push_bit 4 v OR e) \<or> push_bit 4 v = (push_bit 4 v OR e)" by auto
    then show ?thesis using q Cons
      by (cases "packNibbles (padNibbles q'')") (auto simp: padNibbles_def bytesLessEq_def)
  qed
qed

lemma NewKey_version_order:
  assumes "v1 < v2"
  shows "(case NewKey p v1 of
            Inl e \<Rightarrow> NewKey p v2 = Inl e
          | Inr k1 \<Rightarrow> (\<exists>k2. NewKey p v2 = Inr k2 \<and> bytesLess k1 k2))"
  using PutUint32_less[OF assms]
  by (simp add: NewKey_def Let_def bytesLess_append_same split: sum.splits)

lemma NewKey_keyPath:
  assumes "keyPath p"
  shows "NewKey p v = Inr (pathBytes p @ oddFlag p # PutUint32 v)"
proof (cases "length p = 65")
  case True
  with assms have "last p = 16" "p \<noteq> []" by (auto simp: keyPath_def)
  then show ?thesis using True
    by (simp add: NewKey_def Hex_Keybytes_def HasTerm_def pathBytes_def oddFlag_def decodeNibbles_even)
next
  case False
  with assms have nib: "\<forall>x \<in> set p. x < 16" by (auto simp: keyPath_def)
  have "p \<noteq> [] \<Longrightarrow> last p < 16" using nib last_in_set by blast
  then have nt: "\<not> HasTerm (padNibbles p)"
    by (auto simp: HasTerm_def padNibbles_def)
  have ev: "even (length (padNibbles p))" by (simp add: padNibbles_def)
  show ?thesis using False nt ev
    by (auto simp: NewKey_def Hex_Keybytes_def pathBytes_def oddFlag_def decodeNibbles_even padNibbles_def
        odd_iff_mod_2_eq_one)
qed

lemma nib_pos: "a < 16 \<Longrightarrow> b < 16 \<Longrightarrow> a \<noteq> 0 \<Longrightarrow> (0::byte) < push_bit 4 a OR b"
proof -
  assume a: "a < 16" and b: "b < 16" and n: "a \<noteq> 0"
  have "unat a \<noteq> 0" using n by (simp add: unat_eq_0)
  then have "0 < unat (push_bit 4 a OR b)" using unat_nib[OF a b] by simp
  then show ?thesis by (simp add: word_less_nat_alt)
qed

lemma nib_less: "a < 16 \<Longrightarrow> b < 16 \<Longrightarrow> b \<noteq> 0 \<Longrightarrow> push_bit 4 a OR 0 < (push_bit 4 a OR b :: byte)"
proof -
  assume a: "a < 16" and b: "b < 16" and n: "b \<noteq> 0"
  have "unat b \<noteq> 0" using n by (simp add: unat_eq_0)
  then have "unat (push_bit 4 a OR 0 :: byte) < unat (push_bit 4 a OR b)"
    using unat_nib[OF a b] unat_nib[OF a, of 0] by simp
  then show ?thesis by (simp only: word_less_nat_alt)
qed

lemma pack_prefix_less:
  "\<forall>x \<in> set q. x < 16 \<Longrightarrow> take (length p) q = p \<Longrightarrow> length p < length q \<Longrightarrow>
   q ! length p \<noteq> 0 \<Longrightarrow>
   bytesLess (packNibbles (padNibbles p) @ (if odd (length p) then 1 else 0) # V)
             (packNibbles (padNibbles q) @ W)"
proof (induction p arbitrary: q rule: packNibbles.induct)
  case 1
  then obtain e q' where q: "q = e # q'" by (cases q) auto
  with 1 have e: "e < 16" "e \<noteq> 0" by auto
  show ?case
  proof (cases q')
    case Nil
    then show ?thesis using q nib_pos[OF e(1) _ e(2), of 0] by (simp add: padNibbles_def)
  next
    case (Cons e2 q'')
    with q 1 have "e2 < 16" by auto
    from nib_pos[OF e(1) this e(2)] show ?thesis using q Cons
      by (cases "odd (length q'')") (simp_all add: padNibbles_def)
  qed
next
  case (2 a)
  then obtain e q' where q: "q = a # e # q'"
    by (cases q; cases "tl q") auto
  with 2 have a: "a < 16" and e: "e < 16" "e \<noteq> 0" by auto
  from nib_less[OF a e] show ?case using q
    by (cases "odd (length q')") (simp_all add: padNibbles_def)
next
  case (3 a b rest)
  then obtain q' where q: "q = a # b # q'"
    by (cases q; cases "tl q") auto
  with 3 have "bytesLess (packNibbles (padNibbles rest) @ (if odd (length rest) then 1 else 0) # V)
             (packNibbles (padNibbles q') @ W)" by auto
  then show ?case using q by (auto simp: padNibbles_def)
qed

lemma pathBytes_prefix_le:
  assumes "keyPath p" "keyPath q" "isStrictPrefix p q"
  shows "bytesLessEq (pathBytes p) (pathBytes q)"
proof -
  from assms(3) have lp: "length p < length q" and tk: "take (length p) q = p"
    by (auto simp: isStrictPrefix_def)
  show ?thesis
  proof (cases "length q = 65")
    case True
    then have pb: "pathBytes p = packNibbles (padNibbles p)" using lp by (simp add: pathBytes_def)
    from assms(2) True have nib: "\<forall>x \<in> set (butlast q). x < 16" by (auto simp: keyPath_def)
    have p64: "length p \<le> 64" using lp True by simp
    have "take (length p) (butlast q) = p" using tk lp True p64
      by (simp add: butlast_conv_take min_absorb1)
    from pack_prefix_le[OF nib this] True p64 show ?thesis
      by (simp add: pb pathBytes_def padNibbles_def)
  next
    case False
    with assms(2) have nib: "\<forall>x \<in> set q. x < 16" by (auto simp: keyPath_def)
    have "set p \<subseteq> set q" using tk by (metis set_take_subset)
    then have np: "\<forall>x \<in> set p. x < 16" using nib by blast
    have "length p \<noteq> 65"
    proof
      assume l: "length p = 65"
      then have "p \<noteq> []" by auto
      then have "last p \<in> set p" by simp
      then have "last p < 16" using np by blast
      then show False using assms(1) l by (auto simp: keyPath_def)
    qed
    then have pb: "pathBytes p = packNibbles (padNibbles p)" by (simp add: pathBytes_def)
    have qb: "pathBytes q = packNibbles (padNibbles q)" using False by (simp add: pathBytes_def)
    show ?thesis unfolding pb qb by (rule pack_prefix_le[OF nib tk])
  qed
qed

lemma NewKey_prefix_less:
  assumes "keyPath p" "keyPath q" "isStrictPrefix p q"
    and nz: "q ! length p \<noteq> 0" and nt: "q ! length p \<noteq> 16"
  shows "bytesLess (pathBytes p @ oddFlag p # V) (pathBytes q @ W)"
proof -
  from assms(3) have lp: "length p < length q" and tk: "take (length p) q = p"
    by (auto simp: isStrictPrefix_def)
  show ?thesis
  proof (cases "length q = 65 \<and> last q = 16")
    case True
    with assms(2) have nib: "\<forall>x \<in> set (butlast q). x < 16" by (auto simp: keyPath_def)
    from True have qne: "q \<noteq> []" by auto
    have l64: "last q = q ! 64" using True qne by (simp add: last_conv_nth)
    have p64: "length p < 64"
    proof (rule ccontr)
      assume "\<not> length p < 64"
      then have "length p = 64" using lp True by simp
      then show False using nt l64 True by simp
    qed
    have pb: "pathBytes p = packNibbles (padNibbles p)" "oddFlag p = (if odd (length p) then 1 else 0)"
      using p64 by (simp_all add: pathBytes_def oddFlag_def)
    have t: "take (length p) (butlast q) = p" using tk lp True p64
      by (simp add: butlast_conv_take min_absorb1)
    have l: "length p < length (butlast q)" using p64 True by simp
    have n: "butlast q ! length p \<noteq> 0" using nz l by (simp add: nth_butlast)
    have qb: "pathBytes q = packNibbles (padNibbles (butlast q))"
      using True by (simp add: pathBytes_def padNibbles_def)
    show ?thesis unfolding pb qb by (rule pack_prefix_less[OF nib t l n])
  next
    case False
    with assms(2) have nib: "\<forall>x \<in> set q. x < 16" and q65: "length q \<noteq> 65"
      by (auto simp: keyPath_def)
    have "set p \<subseteq> set q" using tk by (metis set_take_subset)
    then have np: "\<forall>x \<in> set p. x < 16" using nib by blast
    have p65: "length p \<noteq> 65"
    proof
      assume l: "length p = 65"
      then have "p \<noteq> []" by auto
      then have "last p \<in> set p" by simp
      then have "last p < 16" using np by blast
      then show False using assms(1) l by (auto simp: keyPath_def)
    qed
    have pb: "pathBytes p = packNibbles (padNibbles p)" "oddFlag p = (if odd (length p) then 1 else 0)"
      using p65 by (simp_all add: pathBytes_def oddFlag_def)
    have qb: "pathBytes q = packNibbles (padNibbles q)" using q65 by (simp add: pathBytes_def)
    show ?thesis unfolding pb qb by (rule pack_prefix_less[OF nib tk lp nz])
  qed
qed

text \<open>
  Claim C3, as stated, fails for a path of odd length: the packed path of \<open>[1]\<close> and of
  \<open>[1, 0]\<close> is the same byte, and the odd-length flag that follows it is larger for the
  shorter path.
\<close>

theorem newkey_counterexample:
  "isStrictPrefix [1] [1, 0] \<and> NewKey [1] 0 = Inr [16, 1, 0, 0, 0, 0]
   \<and> NewKey [1, 0] 0 = Inr [16, 0, 0, 0, 0, 0]
   \<and> \<not> bytesLess [16, 1, 0, 0, 0, 0] [16, 0, 0, 0, 0, 0]"
  by code_simp

text \<open>
  Claim C3, amended. For every path and versions \<open>v1 < v2\<close>: if \<open>NewKey\<close> returns
  a key for \<open>v1\<close> it returns one for \<open>v2\<close>, and the key of \<open>v1\<close> is strictly below
  the key of \<open>v2\<close> in lexicographic byte order (if it panics, it panics for every
  version); it returns a key on every sequence of nibbles whose length is not 65 and
  on 64 nibbles followed by the terminator. For two such paths, the first a strict
  prefix of the second: the packed path component (the key without its last five
  bytes) of every key of the first is lexicographically at most that of every key of
  the second; and when the element of the second path that follows the first is a
  non-zero nibble, every key of the first path is strictly below every key of the
  second, for all versions.
\<close>

theorem newkey_order:
  "(\<forall>v1 v2. v1 < v2 \<longrightarrow>
      (case NewKey p v1 of
         Inl e \<Rightarrow> NewKey p v2 = Inl e
       | Inr k1 \<Rightarrow> (\<exists>k2. NewKey p v2 = Inr k2 \<and> bytesLess k1 k2))) \<and>
   (keyPath p \<longrightarrow> (\<exists>k. NewKey p v = Inr k)) \<and>
   (keyPath p \<and> keyPath q \<and> isStrictPrefix p q \<longrightarrow>
      (\<forall>v v'. \<exists>k k'. NewKey p v = Inr k \<and> NewKey q v' = Inr k' \<and>
          bytesLessEq (Key_path k) (Key_path k') \<and>
          (q ! length p \<noteq> 0 \<and> q ! length p \<noteq> 16 \<longrightarrow> bytesLess k k')))"
proof (intro conjI allI impI)
  fix v1 v2 :: u32 assume "v1 < v2"
  then show "case NewKey p v1 of
         Inl e \<Rightarrow> NewKey p v2 = Inl e
       | Inr k1 \<Rightarrow> (\<exists>k2. NewKey p v2 = Inr k2 \<and> bytesLess k1 k2)"
    by (rule NewKey_version_order)
next
  assume "keyPath p"
  then show "\<exists>k. NewKey p v = Inr k" by (simp add: NewKey_keyPath)
next
  fix v v' assume h: "keyPath p \<and> keyPath q \<and> isStrictPrefix p q"
  then have kp: "keyPath p" and kq: "keyPath q" and sp: "isStrictPrefix p q" by simp_all
  have le: "bytesLessEq (pathBytes p) (pathBytes q)" by (rule pathBytes_prefix_le[OF kp kq sp])
  have ls: "q ! length p \<noteq> 0 \<and> q ! length p \<noteq> 16 \<longrightarrow>
      bytesLess (pathBytes p @ oddFlag p # PutUint32 v) (pathBytes q @ oddFlag q # PutUint32 v')"
    using NewKey_prefix_less[OF kp kq sp] by blast
  show "\<exists>k k'. NewKey p v = Inr k \<and> NewKey q v' = Inr k' \<and>
          bytesLessEq (Key_path k) (Key_path k') \<and>
          (q ! length p \<noteq> 0 \<and> q ! length p \<noteq> 16 \<longrightarrow> bytesLess k k')"
    unfolding NewKey_keyPath[OF kp] NewKey_keyPath[OF kq]
    using le ls by (simp add: Key_path_NewKey)
qed

theorem newkey_order_witness:
  "keyPath [1] \<and> keyPath [1, 2] \<and> isStrictPrefix [1] [1, 2] \<and> (1::u32) < 2
   \<and> [1, 2] ! length [1::byte] \<noteq> (0::byte) \<and> [1, 2] ! length [1::byte] \<noteq> (16::byte)
   \<and> (\<exists>k1 k2. NewKey [1] 1 = Inr k1 \<and> NewKey [1] 2 = Inr k2 \<and> bytesLess k1 k2)
   \<and> (\<exists>k k'. NewKey [1] 7 = Inr k \<and> NewKey [1, 2] 0 = Inr k' \<and>
          bytesLessEq (Key_path k) (Key_path k') \<and> bytesLess k k')"
proof -
  have a: "keyPath [1]" and b: "keyPath [1, 2]"
    by (simp_all add: keyPath_def)
  have c: "isStrictPrefix [1] [1, 2]" by (simp add: isStrictPrefix_def)
  have d: "(1::u32) < 2" by simp
  have e: "[1, 2] ! length [1::byte] \<noteq> (0::byte)" "[1, 2] ! length [1::byte] \<noteq> (16::byte)"
    by simp_all
  note T = newkey_order[of "[1]" 1 "[1, 2]"]
  from T a obtain k1 where k1: "NewKey [1] 1 = Inr k1" by blast
  from T d have "case NewKey [1] 1 of
         Inl e \<Rightarrow> NewKey [1] 2 = Inl e
       | Inr k1 \<Rightarrow> (\<exists>k2. NewKey [1] 2 = Inr k2 \<and> bytesLess k1 k2)" by blast
  then have A: "\<exists>k1 k2. NewKey [1] 1 = Inr k1 \<and> NewKey [1] 2 = Inr k2 \<and> bytesLess k1 k2"
    unfolding k1 by simp
  from T a b c e have B: "\<exists>k k'. NewKey [1] 7 = Inr k \<and> NewKey [1, 2] 0 = Inr k' \<and>
          bytesLessEq (Key_path k) (Key_path k') \<and> bytesLess k k'" by blast
  show ?thesis using a b c d e A B by blast
qed

section \<open>Boundary checks, the empty trie and concrete scenarios\<close>

text \<open>
  Claim C7 at a concrete trie: three keys are inserted, the first is removed and then
  inserted again. The second insertion descends through the overlay whose only
  tombstone is that key; the tombstone is dropped, and the overlay stays around the
  branch with an empty tombstone set.
\<close>

theorem update_keeps_empty_overlay:
  "(case root (snd (Update (snd (Remove threeKeys (scenarioKey 0x00))) (scenarioKey 0x00) (Some [7]))) of
      WithDeletedKeys (Full k cs v) ks \<Rightarrow> ks = []
    | _ \<Rightarrow> False)"
  by code_simp

text \<open>
  Without storing, the finalizer makes no call on its collection, and what it returns
  is what \<open>finalize\<close> returns: \<open>Hash\<close> calls the storage for no trie. When it stores,
  the calls are recorded, as for a root that is a leaf.
\<close>

lemma finalizeIO_no_store:
  "finalizeIO w f n path False forceHash = (finalize f n forceHash, [])"
  "finalizeFullNodeChildrenIO w f cs pathToChildren i False = (finalizeFullNodeChildren f cs, [])"
proof (induction f n forceHash and f cs arbitrary: path and pathToChildren i
       rule: finalize_finalizeFullNodeChildren.induct)
  case (1 f forceHash)
  then show ?case by simp
next
  case (2 f n ks forceHash)
  then show ?case by simp
next
  case (3 f key "value" ver forceHash)
  then show ?case by (simp add: Let_def split: sum.splits)
next
  case (4 f key children ver forceHash)
  then show ?case by (simp add: Let_def split: sum.splits prod.splits)
next
  case (5 f h l ver forceHash)
  then show ?case by simp
next
  case (6 f)
  then show ?case by simp
next
  case (7 f child rest)
  then show ?case by (simp split: sum.splits)
qed

lemma FinalizeIO_no_store: "FinalizeIO w f n path False forceHash = (Finalize f n forceHash, [])"
  by (simp add: FinalizeIO_def Finalize_def finalizeIO_no_store split: sum.splits inode.splits)

lemma HashIO_Hash: "HashIO w t = (Hash t, [])"
  by (simp add: HashIO_def Hash_def FinalizeIO_no_store)

lemma Finalize_store_leaf:
  assumes "length key = 65" "Hex_Compact key = Inr ckey" "StoreOutcome w [] ver = Done"
    "StoreValueOutcome w key ver v = Done" "WriteBatchError w = None"
  shows "snd (FinalizeIO w f (Leaf key v ver) [] True True)
         = [NewBatch, Store [] ver, StoreValue key ver v, BatchWrite]"
  using assms by (simp add: FinalizeIO_def Let_def)

text \<open>
  Claim C9: the hash of a freshly created empty trie is the empty-root constant, for
  every initial version, whatever the hash function and the storage are; and computing
  it makes no call on the storage: no record is read and none is written, whatever the
  calls that write would do.
\<close>

theorem empty_hash:
  "Hash (NewEmptyLudicrousTrie f c v) = Inr emptyRoot \<and>
   Hash (NewEmptyPrefixedLudicrousTrie f c v) = Inr emptyRoot \<and>
   HashIO w (NewEmptyLudicrousTrie f c v) = (Inr emptyRoot, []) \<and>
   HashIO w (NewEmptyPrefixedLudicrousTrie f c v) = (Inr emptyRoot, [])"
  by (simp add: Hash_def HashIO_def FinalizeIO_def NewEmptyLudicrousTrie_def
      NewEmptyPrefixedLudicrousTrie_def Finalize_def)

text \<open>
  Claim C5: Get, Update and Remove with a nil key or a key that is not 32 bytes long
  return an error, as does Update with a nil value or the reserved value; the trie
  is returned as it was.
\<close>

theorem invalid_arguments_rejected:
  "((key = None \<or> (\<exists>k. key = Some k \<and> length k \<noteq> 32)) \<longrightarrow>
      (\<exists>e. Get t key = (None, Some e)) \<and>
      (\<exists>e. Update t key value = (Some e, t)) \<and>
      (\<exists>e. Remove t key = (Some e, t))) \<and>
   ((value = None \<or> value = Some [0x80]) \<longrightarrow> (\<exists>e. Update t key value = (Some e, t)))"
  by (auto simp: Get_def Update_def Remove_def checkKey_def checkValue_def keySize_def deletedValue_def
      split: option.splits)

theorem invalid_arguments_rejected_witness:
  "(\<exists>e. Get emptyTrie (Some [1, 2, 3]) = (None, Some e)) \<and>
   (\<exists>e. Update emptyTrie (Some [1, 2, 3]) (Some [0x80]) = (Some e, emptyTrie)) \<and>
   (\<exists>e. Remove emptyTrie (Some [1, 2, 3]) = (Some e, emptyTrie))"
  using invalid_arguments_rejected[of "Some [1, 2, 3]" emptyTrie "Some [0x80]"] by simp

text \<open>
  Claim C8 at the fridge of the scenario: three items are appended and the
  fridge is truncated to two. Truncate cuts the index file to two entries and then
  reads the entry at position two, which is past the end of the file.
\<close>

theorem truncate_returns_error:
  "VectorDB_Items threeItems = 3 \<and>
   fst (VectorDB_Truncate threeItems 2) = Some errEOF \<and>
   VectorDB_Get (snd (VectorDB_Truncate threeItems 2)) 2 = Inl errPositionOutOfRange \<and>
   VectorDB_Get (snd (VectorDB_Truncate threeItems 2)) 0 = Inr [1] \<and>
   VectorDB_Get (snd (VectorDB_Truncate threeItems 2)) 1 = Inr [2, 2]"
  by code_simp

section \<open>The finalizer and the reference trie\<close>

declare refNode.simps [simp del]

lemma nib_arith: "a < 16 \<Longrightarrow> b < 16 \<Longrightarrow> 16 * a + b = (push_bit 4 a OR b :: byte)"
proof -
  assume a: "a < 16" and b: "b < 16"
  have ua: "unat a < 16" and ub: "unat b < 16" using a b by (simp_all add: word_less_nat_alt)
  have "unat (16 * a + b) = (16 * unat a + unat b) mod 256"
    by (simp add: unat_word_ariths mod_simps)
  also have "\<dots> = 16 * unat a + unat b" using ua ub by simp
  finally have "unat (16 * a + b) = unat (push_bit 4 a OR b)" using unat_nib[OF a b] by simp
  then show ?thesis by (simp only: word_unat_eq_iff)
qed

lemma pairNibbles_pack: "\<forall>x \<in> set xs. x < 16 \<Longrightarrow> pairNibbles xs = packNibbles xs"
  by (induction xs rule: pairNibbles.induct) (simp_all add: nib_arith)

lemma Hex_Compact_term:
  assumes nib: "\<forall>x \<in> set x. x < 16"
  shows "Hex_Compact (x @ [16]) = Inr (hexPrefix x True)"
proof (cases "even (length x)")
  case True
  then show ?thesis using nib
    by (simp add: Hex_Compact_def HasTerm_def hexPrefix_def decodeNibbles_even pairNibbles_pack)
next
  case False
  then obtain a rest where b: "x = a # rest" by (cases x) auto
  with False have ev: "even (length rest)" by simp
  from nib b have a: "a < 16" and r: "\<forall>y \<in> set rest. y < 16" by auto
  have "(32::byte) OR 16 = push_bit 4 3" by simp
  then have "(32 OR 16 OR a) = (push_bit 4 3 OR a :: byte)" by (metis or.assoc)
  then have e: "(32 OR 16 OR a) = 48 + a" using nib_arith[of 3 a] a by simp
  show ?thesis using False ev
    by (simp add: b Hex_Compact_def HasTerm_def hexPrefix_def decodeNibbles_even pairNibbles_pack[OF r] e)
qed

lemma Hex_Compact_noterm:
  assumes nib: "\<forall>x \<in> set x. x < 16"
  shows "Hex_Compact x = Inr (hexPrefix x False)"
proof -
  have nt: "\<not> HasTerm x"
  proof
    assume "HasTerm x"
    then have ne: "x \<noteq> []" and l: "last x = 16" by (simp_all add: HasTerm_def)
    have "last x \<in> set x" using ne by (rule last_in_set)
    then have "last x < 16" using nib by blast
    then show False unfolding l by simp
  qed
  show ?thesis
  proof (cases "even (length x)")
    case True
    then show ?thesis using nib nt
      by (simp add: Hex_Compact_def hexPrefix_def decodeNibbles_even pairNibbles_pack)
  next
    case False
    then obtain a rest where b: "x = a # rest" by (cases x) auto
    with False have ev: "even (length rest)" by simp
    from nib b have a: "a < 16" and r: "\<forall>y \<in> set rest. y < 16" by auto
    have e: "(16 OR a) = 16 + a" using nib_arith[of 1 a] a by simp
    show ?thesis using False ev nt[unfolded b]
      by (simp add: b Hex_Compact_def hexPrefix_def decodeNibbles_even pairNibbles_pack[OF r] e)
  qed
qed

lemma capNode_INil [simp]: "capNode f INil = INil"
  by (simp add: capNode_def rlpString_def rlpHeader_def)

lemma refNode_Nil [simp]: "refNode f [] = INil"
  by (subst refNode.simps) simp

lemma refNode_single [simp]: "refNode f [(k, v)] = ILeaf (hexPrefix k True) v"
  by (subst refNode.simps) simp

lemma refNode_many:
  "2 \<le> length J \<Longrightarrow>
   refNode f J =
     (let p = commonPrefixAll (map fst J);
          J' = map (\<lambda>(k, v). (drop (length p) k, v)) J;
          branch = IFull (map (\<lambda>i. capNode f (refNode f (subTrie J' i))) [0..<16] @ [INil])
      in if p = [] then branch else IExtension (hexPrefix p False) (capNode f branch))"
  by (subst refNode.simps) auto

lemma commonPrefix_take: "take (length (commonPrefix a b)) a = commonPrefix a b"
  "take (length (commonPrefix a b)) b = commonPrefix a b"
  by (induction a b rule: commonPrefix.induct) auto

lemma take_take_prefix:
  "take (length p) q = p \<Longrightarrow> take (length q) x = q \<Longrightarrow> take (length p) x = p"
  by (metis append_eq_conv_conj append_take_drop_id take_add append.assoc)

lemma commonPrefixAll_prefix:
  "x \<in> set xs \<Longrightarrow> take (length (commonPrefixAll xs)) x = commonPrefixAll xs"
proof (induction xs rule: commonPrefixAll.induct)
  case 1
  then show ?case by simp
next
  case (2 k)
  then show ?case by simp
next
  case (3 k k' ks)
  show ?case
  proof (cases "x = k")
    case True
    then show ?thesis by (simp add: commonPrefix_take(1))
  next
    case False
    with 3 have "take (length (commonPrefixAll (k' # ks))) x = commonPrefixAll (k' # ks)" by simp
    from take_take_prefix[OF commonPrefix_take(2) this] show ?thesis by simp
  qed
qed

lemma commonPrefix_greatest:
  "take (length p) a = p \<Longrightarrow> take (length p) b = p \<Longrightarrow> take (length p) (commonPrefix a b) = p"
proof (induction a b arbitrary: p rule: commonPrefix.induct)
  case (1 ys)
  then show ?case by simp
next
  case (2 x xs)
  then show ?case by simp
next
  case (3 x xs y ys)
  show ?case
  proof (cases p)
    case Nil
    then show ?thesis by simp
  next
    case (Cons c p')
    with 3 show ?thesis by auto
  qed
qed

lemma commonPrefixAll_greatest:
  "xs \<noteq> [] \<Longrightarrow> \<forall>x \<in> set xs. take (length p) x = p \<Longrightarrow> take (length p) (commonPrefixAll xs) = p"
proof (induction xs rule: commonPrefixAll.induct)
  case 1
  then show ?case by simp
next
  case (2 k)
  then show ?case by simp
next
  case (3 k k' ks)
  then have "take (length p) (commonPrefixAll (k' # ks)) = p" by simp
  moreover have "take (length p) k = p" using 3 by simp
  ultimately show ?case using commonPrefix_greatest by simp
qed

lemma prefix_antisym: "take (length p) q = p \<Longrightarrow> take (length q) p = q \<Longrightarrow> p = q"
  by (metis length_take min.absorb2 min.cobounded1 take_all_iff)

lemma commonPrefixAll_set:
  assumes "set xs = set ys" "xs \<noteq> []"
  shows "commonPrefixAll xs = commonPrefixAll ys"
proof -
  have ys: "ys \<noteq> []" using assms by auto
  have a: "take (length (commonPrefixAll xs)) (commonPrefixAll ys) = commonPrefixAll xs"
    by (rule commonPrefixAll_greatest[OF ys]) (simp add: assms(1)[symmetric] commonPrefixAll_prefix)
  have b: "take (length (commonPrefixAll ys)) (commonPrefixAll xs) = commonPrefixAll ys"
    by (rule commonPrefixAll_greatest[OF assms(2)]) (simp add: assms(1) commonPrefixAll_prefix)
  show ?thesis by (rule prefix_antisym[OF a b])
qed

lemma commonPrefixAll_append:
  assumes "xs \<noteq> []"
  shows "commonPrefixAll (map (\<lambda>q. k @ q) xs) = k @ commonPrefixAll xs"
proof -
  let ?L = "commonPrefixAll (map (\<lambda>q. k @ q) xs)"
  have ne: "map (\<lambda>q. k @ q) xs \<noteq> []" using assms by simp
  have a: "take (length (k @ commonPrefixAll xs)) ?L = k @ commonPrefixAll xs"
  proof (rule commonPrefixAll_greatest[OF ne], rule ballI)
    fix x assume "x \<in> set (map (\<lambda>q. k @ q) xs)"
    then obtain q where q: "q \<in> set xs" "x = k @ q" by auto
    show "take (length (k @ commonPrefixAll xs)) x = k @ commonPrefixAll xs"
      unfolding q(2) using commonPrefixAll_prefix[OF q(1)] by simp
  qed
  have k: "take (length k) ?L = k"
  proof (rule commonPrefixAll_greatest[OF ne], rule ballI)
    fix x assume "x \<in> set (map (\<lambda>q. k @ q) xs)"
    then show "take (length k) x = k" by auto
  qed
  then obtain r where r: "?L = k @ r" by (metis append_take_drop_id)
  have "take (length r) (commonPrefixAll xs) = r"
  proof (rule commonPrefixAll_greatest[OF assms], rule ballI)
    fix q assume "q \<in> set xs"
    then have "k @ q \<in> set (map (\<lambda>q. k @ q) xs)" by simp
    from commonPrefixAll_prefix[OF this] show "take (length r) q = r" unfolding r by simp
  qed
  then have b: "take (length ?L) (k @ commonPrefixAll xs) = ?L" unfolding r by simp
  show ?thesis by (rule prefix_antisym[OF b a])
qed

lemma commonPrefixAll_diverge:
  assumes "a # x \<in> set xs" "b # y \<in> set xs" "a \<noteq> b"
  shows "commonPrefixAll xs = []"
proof (rule ccontr)
  assume "commonPrefixAll xs \<noteq> []"
  then obtain c r where c: "commonPrefixAll xs = c # r" by (cases "commonPrefixAll xs") auto
  from commonPrefixAll_prefix[OF assms(1)] commonPrefixAll_prefix[OF assms(2)]
  show False using assms(3) unfolding c by simp
qed

lemma subTrie_append: "subTrie (A @ B) i = subTrie A i @ subTrie B i"
  by (simp add: subTrie_def)

lemma subTrie_map_Cons:
  "subTrie (map (\<lambda>(q, v). (a # q, v)) X) i = (if a = of_nat i then X else [])"
  by (induction X) (auto simp: subTrie_def)

lemma byte_of_nat_inj: "i < 256 \<Longrightarrow> j < 256 \<Longrightarrow> (of_nat i :: byte) = of_nat j \<longleftrightarrow> i = j"
proof
  assume i: "i < 256" and j: "j < 256" and e: "(of_nat i :: byte) = of_nat j"
  have a: "unat (of_nat i :: byte) = i mod 256" and b: "unat (of_nat j :: byte) = j mod 256"
    by (simp_all add: unat_of_nat)
  have ui: "unat (of_nat i :: byte) = i" unfolding a using i by (rule mod_less)
  have uj: "unat (of_nat j :: byte) = j" unfolding b using j by (rule mod_less)
  have "unat (of_nat i :: byte) = unat (of_nat j :: byte)" by (simp only: e)
  then show "i = j" unfolding ui uj .
next
  assume "i = j"
  then show "(of_nat i :: byte) = of_nat j" by simp
qed

lemma subTrie_contentsChildren:
  "j + length cs \<le> 256 \<Longrightarrow> i < 256 \<Longrightarrow>
   subTrie (contentsChildren j cs) i =
     (if j \<le> i \<and> i < j + length cs then contents (cs ! (i - j)) else [])"
proof (induction cs arbitrary: j)
  case Nil
  then show ?case by (auto simp: subTrie_def)
next
  case (Cons c cs)
  have j: "j < 256" using Cons.prems(1) by simp
  have ih: "subTrie (contentsChildren (Suc j) cs) i =
     (if Suc j \<le> i \<and> i < Suc j + length cs then contents (cs ! (i - Suc j)) else [])"
    using Cons.IH[of "Suc j"] Cons.prems by simp
  show ?case
  proof (cases "i = j")
    case True
    then show ?thesis
      unfolding contentsChildren.simps subTrie_append subTrie_map_Cons ih by simp
  next
    case False
    then have ne: "(of_nat j :: byte) \<noteq> of_nat i"
      using byte_of_nat_inj[OF j Cons.prems(2)] by simp
    have "i - j = Suc (i - Suc j)" if "Suc j \<le> i" using that by simp
    then show ?thesis
      unfolding contentsChildren.simps subTrie_append subTrie_map_Cons ih
      using ne False by auto
  qed
qed

lemma contentsChildren_mem:
  "i < length cs \<Longrightarrow> (q, v) \<in> set (contents (cs ! i)) \<Longrightarrow>
   (of_nat (j + i) # q, v) \<in> set (contentsChildren j cs)"
proof (induction cs arbitrary: j i)
  case Nil
  then show ?case by simp
next
  case (Cons c cs)
  show ?case
  proof (cases i)
    case 0
    then show ?thesis using Cons.prems by force
  next
    case (Suc i')
    then have "(of_nat (Suc j + i') # q, v) \<in> set (contentsChildren (Suc j) cs)"
      using Cons.IH[of i' "Suc j"] Cons.prems by simp
    then show ?thesis using Suc by simp
  qed
qed

lemma contentsChildren_elem:
  "(x, v) \<in> set (contentsChildren j cs) \<Longrightarrow>
   \<exists>i q. i < length cs \<and> x = of_nat (j + i) # q \<and> (q, v) \<in> set (contents (cs ! i))"
proof (induction cs arbitrary: j)
  case Nil
  then show ?case by simp
next
  case (Cons c cs)
  from Cons.prems have "(x, v) \<in> set (map (\<lambda>(q, v). (of_nat j # q, v)) (contents c))
      \<or> (x, v) \<in> set (contentsChildren (Suc j) cs)" by simp
  then show ?case
  proof
    assume "(x, v) \<in> set (map (\<lambda>(q, v). (of_nat j # q, v)) (contents c))"
    then obtain q where "x = of_nat j # q" "(q, v) \<in> set (contents c)" by auto
    then have "0 < length (c # cs) \<and> x = of_nat (j + 0) # q \<and> (q, v) \<in> set (contents ((c # cs) ! 0))"
      by simp
    then show ?thesis by blast
  next
    assume "(x, v) \<in> set (contentsChildren (Suc j) cs)"
    from Cons.IH[OF this] obtain i q where
      iq: "i < length cs \<and> x = of_nat (Suc j + i) # q \<and> (q, v) \<in> set (contents (cs ! i))"
      by (elim exE) (rule that)
    then have "Suc i < length (c # cs) \<and> x = of_nat (j + Suc i) # q \<and>
        (q, v) \<in> set (contents ((c # cs) ! Suc i))" by simp
    then show ?thesis by blast
  qed
qed

lemma two_living:
  assumes "2 \<le> livingChildren cs"
  shows "\<exists>i j. i < length cs \<and> j < length cs \<and> i \<noteq> j \<and> cs ! i \<noteq> Nil_node \<and> cs ! j \<noteq> Nil_node"
proof -
  let ?S = "{i. i < length cs \<and> cs ! i \<noteq> Nil_node}"
  have c: "2 \<le> card ?S" using assms by (simp only: livingChildren_card)
  have fin: "finite ?S" by simp
  have "?S \<noteq> {}"
  proof
    assume "?S = {}"
    then have "card ?S = 0" by (simp only: card.empty)
    with c show False by simp
  qed
  then obtain x where x: "x \<in> ?S" by blast
  have "card (?S - {x}) = card ?S - 1" using fin x by simp
  then have "0 < card (?S - {x})" using c by simp
  then have "?S - {x} \<noteq> {}" by (metis card.empty less_numeral_extra(3))
  then obtain y where y: "y \<in> ?S" "y \<noteq> x" by blast
  show ?thesis using x y by blast
qed

lemma two_elements: "a \<in> set C \<Longrightarrow> b \<in> set C \<Longrightarrow> a \<noteq> b \<Longrightarrow> 2 \<le> length C"
proof -
  assume a: "a \<in> set C" and b: "b \<in> set C" and ne: "a \<noteq> b"
  have "card {a, b} \<le> card (set C)" using a b by (intro card_mono) auto
  moreover have "card {a, b} = 2" using ne by simp
  moreover have "card (set C) \<le> length C" by (rule card_length)
  ultimately show ?thesis by simp
qed

lemma contents_nonempty: "wfNode pre n \<Longrightarrow> contents n \<noteq> []"
proof (induction n arbitrary: pre)
  case (Full k cs ver)
  then have liv: "2 \<le> livingChildren cs" and wc: "wfChildren (pre @ k) 0 cs" by simp_all
  from two_living[OF liv] obtain i where i: "i < length cs" "cs ! i \<noteq> Nil_node" by blast
  have "wfNode ((pre @ k) @ [of_nat (0 + i)]) (cs ! i)"
    using wc i unfolding wfChildren_iff by blast
  moreover have "cs ! i \<in> set cs" using i by simp
  ultimately have "contents (cs ! i) \<noteq> []" by (rule Full.IH[rotated])
  then obtain q v where "(q, v) \<in> set (contents (cs ! i))" by (cases "contents (cs ! i)") auto
  from contentsChildren_mem[OF i(1) this, of 0] have "contentsChildren 0 cs \<noteq> []" by auto
  then show ?case by simp
qed auto

lemma map_index: "map (\<lambda>i. h (cs ! i)) [0..<length cs] = map h cs"
proof -
  have "map h (map (\<lambda>i. cs ! i) [0..<length cs]) = map h cs" by (simp only: map_nth)
  then show ?thesis by (simp add: comp_def)
qed

lemma refNode_Full:
  assumes wf: "wfNode pre (Full k cs ver)"
  shows "refNode f (contents (Full k cs ver)) =
     (let branch = IFull (map (\<lambda>c. capNode f (refNode f (contents c))) cs @ [INil])
      in if k = [] then branch else IExtension (hexPrefix k False) (capNode f branch))"
proof -
  define C where "C = contentsChildren 0 cs"
  define J where "J = map (\<lambda>(q, v). (k @ q, v)) C"
  from wf have cs: "length cs = 16" and liv: "2 \<le> livingChildren cs"
    and wc: "wfChildren (pre @ k) 0 cs" by (simp_all add: NumChildren_def)
  from two_living[OF liv] obtain i j where
    ij: "i < length cs" "j < length cs" "i \<noteq> j" "cs ! i \<noteq> Nil_node" "cs ! j \<noteq> Nil_node"
    by blast
  have wi: "wfNode ((pre @ k) @ [of_nat (0 + i)]) (cs ! i)"
    using wc ij(1,4) unfolding wfChildren_iff by blast
  have wj: "wfNode ((pre @ k) @ [of_nat (0 + j)]) (cs ! j)"
    using wc ij(2,5) unfolding wfChildren_iff by blast
  from contents_nonempty[OF wi] obtain q v where qv: "(q, v) \<in> set (contents (cs ! i))"
    by (cases "contents (cs ! i)") auto
  from contents_nonempty[OF wj] obtain q' v' where qv': "(q', v') \<in> set (contents (cs ! j))"
    by (cases "contents (cs ! j)") auto
  have m1: "(of_nat i # q, v) \<in> set C"
    unfolding C_def using contentsChildren_mem[OF ij(1) qv, of 0] by simp
  have m2: "(of_nat j # q', v') \<in> set C"
    unfolding C_def using contentsChildren_mem[OF ij(2) qv', of 0] by simp
  have ne: "(of_nat i :: byte) \<noteq> of_nat j"
    using byte_of_nat_inj[of i j] ij(1,2,3) cs by simp
  have l2: "2 \<le> length C" by (rule two_elements[OF m1 m2]) (simp add: ne)
  then have lJ: "2 \<le> length J" by (simp add: J_def)
  have Cne: "map fst C \<noteq> []" using l2 by auto
  have k1: "of_nat i # q \<in> set (map fst C)" using m1 by force
  have k2: "of_nat j # q' \<in> set (map fst C)" using m2 by force
  have cp0: "commonPrefixAll (map fst C) = []" by (rule commonPrefixAll_diverge[OF k1 k2 ne])
  have mf: "map fst J = map (\<lambda>q. k @ q) (map fst C)"
    by (simp add: J_def comp_def case_prod_beta)
  have p: "commonPrefixAll (map fst J) = k"
    unfolding mf commonPrefixAll_append[OF Cne] cp0 by simp
  have J': "map (\<lambda>(x, v). (drop (length k) x, v)) J = C"
    by (simp add: J_def comp_def case_prod_beta)
  have sub: "subTrie C i = contents (cs ! i)" if "i < 16" for i
    unfolding C_def using subTrie_contentsChildren[of 0 cs i] that cs by simp
  have "map (\<lambda>i. capNode f (refNode f (subTrie C i))) [0..<16]
        = map (\<lambda>i. capNode f (refNode f (contents (cs ! i)))) [0..<16]"
    by (rule map_cong) (simp_all add: sub)
  also have "\<dots> = map (\<lambda>c. capNode f (refNode f (contents c))) cs"
    using map_index[of "\<lambda>c. capNode f (refNode f (contents c))" cs] cs by simp
  finally have ch: "map (\<lambda>i. capNode f (refNode f (subTrie C i))) [0..<16]
        = map (\<lambda>c. capNode f (refNode f (contents c))) cs" .
  have cJ: "contents (Full k cs ver) = J" by (simp add: J_def C_def)
  show ?thesis
    unfolding cJ refNode_many[OF lJ, of f] Let_def p J' ch by simp
qed

lemma finalize_children_ref:
  assumes "\<And>c. c \<in> set cs \<Longrightarrow> finalize f c False = Inr (capNode f (refNode f (contents c)))"
  shows "finalizeFullNodeChildren f cs = Inr (map (\<lambda>c. capNode f (refNode f (contents c))) cs)"
  using assms by (induction cs) simp_all

lemma finalize_ref:
  "wfNode pre n \<Longrightarrow>
   finalize f n fh =
     Inr (if fh then IHash (Keccak256Hash f (EncodeToBytes (refNode f (contents n))))
          else capNode f (refNode f (contents n)))"
proof (induction n arbitrary: pre fh)
  case Nil_node
  then show ?case by simp
next
  case (Stored h l ver)
  then show ?case by simp
next
  case (Leaf k v ver)
  then have vt: "validTail k" by simp
  then have ne: "k \<noteq> []" and l: "last k = 16" and nib: "\<forall>x \<in> set (butlast k). x < 16"
    by (simp_all add: validTail_def)
  have "k = butlast k @ [16]" using ne l by (metis append_butlast_last_id)
  then have hc: "Hex_Compact k = Inr (hexPrefix (butlast k) True)"
    using Hex_Compact_term[OF nib] by simp
  show ?case
    by (simp add: hc Let_def capNode_def HashLength_def)
next
  case (WithDeletedKeys n ks)
  then have "wfNode pre n" by simp
  from WithDeletedKeys.IH[OF this] show ?case by simp
next
  case (Full k cs ver)
  then have cs: "length cs = 16" and k16: "\<forall>x \<in> set k. x < 16"
    and wc: "wfChildren (pre @ k) 0 cs" by (simp_all add: NumChildren_def)
  have ch: "finalize f c False = Inr (capNode f (refNode f (contents c)))" if c: "c \<in> set cs" for c
  proof (cases "c = Nil_node")
    case True
    then show ?thesis by simp
  next
    case False
    from c obtain i where i: "i < length cs" "cs ! i = c" by (auto simp: in_set_conv_nth)
    have "wfNode ((pre @ k) @ [of_nat (0 + i)]) c"
      using wc i False unfolding wfChildren_iff by blast
    from Full.IH[OF c this, of False] show ?thesis by simp
  qed
  note fc = finalize_children_ref[of cs f, OF ch]
  note rf = refNode_Full[OF Full.prems, of f]
  define branch where "branch = IFull (map (\<lambda>c. capNode f (refNode f (contents c))) cs @ [INil])"
  have rf': "refNode f (contents (Full k cs ver)) =
      (if k = [] then branch else IExtension (hexPrefix k False) (capNode f branch))"
    unfolding rf branch_def Let_def ..
  have hc: "Hex_Compact k = Inr (hexPrefix k False)" by (rule Hex_Compact_noterm[OF k16])
  have can: "canonicalFullNodeIntegrityNodeAndRLP f branch k =
      Inr (refNode f (contents (Full k cs ver)), EncodeToBytes (refNode f (contents (Full k cs ver))))"
    unfolding rf'
    by (simp add: canonicalFullNodeIntegrityNodeAndRLP_def Let_def hc capNode_def HashLength_def)
  have "finalize f (Full k cs ver) fh =
      (case canonicalFullNodeIntegrityNodeAndRLP f branch k of
         Inl e \<Rightarrow> Inl e
       | Inr (canonicalIntegrityNode, canonicalIntegrityRLP) \<Rightarrow>
           if HashLength \<le> length canonicalIntegrityRLP \<or> fh
           then Inr (IHash (Keccak256Hash f canonicalIntegrityRLP))
           else Inr canonicalIntegrityNode)"
    by (simp add: fc branch_def)
  then show ?case unfolding can by (simp add: capNode_def HashLength_def Let_def)
qed

lemma keys_strip: "map fst (map (\<lambda>(k, v). (drop n k, v)) J) = map (drop n) (map fst J)"
  by (induction J) auto

lemma keys_subTrie:
  "map fst (subTrie J i) = map tl (filter (\<lambda>k. k \<noteq> [] \<and> hd k = of_nat i) (map fst J))"
  by (induction J) (auto simp: subTrie_def)

lemma distinct_keys_strip:
  assumes "distinct (map fst J)" "\<forall>x \<in> set (map fst J). take n x = p"
  shows "distinct (map fst (map (\<lambda>(k, v). (drop n k, v)) J))"
proof -
  have inj: "inj_on (drop n) (set (map fst J))"
  proof (rule inj_onI)
    fix x y assume x: "x \<in> set (map fst J)" and y: "y \<in> set (map fst J)"
      and e: "drop n x = drop n y"
    have "take n x = p" "take n y = p" using assms(2) x y by blast+
    then have "take n x = take n y" by simp
    then have "take n x @ drop n x = take n y @ drop n y" using e by simp
    then show "x = y" by (simp only: append_take_drop_id)
  qed
  show ?thesis unfolding keys_strip
    by (rule iffD2[OF distinct_map, OF conjI[OF assms(1) inj]])
qed

lemma distinct_keys_subTrie:
  assumes "distinct (map fst J)"
  shows "distinct (map fst (subTrie J i))"
proof -
  let ?F = "filter (\<lambda>k. k \<noteq> [] \<and> hd k = (of_nat i :: byte)) (map fst J)"
  have d: "distinct ?F" using assms by simp
  have inj: "inj_on tl (set ?F)"
  proof (rule inj_onI)
    fix x y assume x: "x \<in> set ?F" and y: "y \<in> set ?F" and e: "tl x = tl y"
    from x y have "x \<noteq> []" "y \<noteq> []" "hd x = hd y" by simp_all
    then show "x = y" using e by (metis list.expand)
  qed
  show ?thesis unfolding keys_subTrie
    by (rule iffD2[OF distinct_map, OF conjI[OF d inj]])
qed

lemma set_subTrie: "set J = set K \<Longrightarrow> set (subTrie J i) = set (subTrie K i)"
  by (simp add: subTrie_def)

lemma distinct_same_length:
  assumes "distinct (map fst J)" "distinct (map fst K)" "set J = set K"
  shows "length J = length K"
proof -
  have "distinct J" "distinct K" using assms(1,2) by (simp_all add: distinct_map)
  then have "length J = card (set J)" "length K = card (set K)" by (simp_all add: distinct_card)
  then show ?thesis using assms(3) by simp
qed

lemma refNode_set:
  "distinct (map fst J) \<Longrightarrow> distinct (map fst K) \<Longrightarrow> set J = set K \<Longrightarrow>
   refNode f J = refNode f K"
proof (induction f J arbitrary: K rule: refNode.induct)
  case (1 f J)
  note len = distinct_same_length[OF "1.prems"]
  show ?case
  proof (cases "J = []")
    case True
    then have "K = []" using "1.prems"(3) by simp
    then show ?thesis using True by simp
  next
    case ne: False
    show ?thesis
    proof (cases "length J = 1")
      case True
      then obtain a where a: "J = [a]" by (cases J) auto
      from True len obtain b where b: "K = [b]" by (cases K) auto
      have "a = b" using "1.prems"(3) a b by simp
      then show ?thesis using a b by simp
    next
      case l1: False
      have "length J \<noteq> 0" using ne by simp
      then have lJ: "2 \<le> length J" using l1 by arith
      then have lK: "2 \<le> length K" using len by simp
      define p where "p = commonPrefixAll (map fst J)"
      define Js where "Js = map (\<lambda>(k, v). (drop (length p) k, v)) J"
      define Ks where "Ks = map (\<lambda>(k, v). (drop (length p) k, v)) K"
      have sk: "set (map fst J) = set (map fst K)" using "1.prems"(3) by simp
      have kne: "map fst J \<noteq> []" using ne by simp
      have pK: "commonPrefixAll (map fst K) = p"
        unfolding p_def by (rule commonPrefixAll_set[OF sk kne, symmetric])
      have preJ: "\<forall>x \<in> set (map fst J). take (length p) x = p"
        unfolding p_def using commonPrefixAll_prefix by blast
      have preK: "\<forall>x \<in> set (map fst K). take (length p) x = p"
        unfolding sk[symmetric] by (rule preJ)
      have dJs: "distinct (map fst Js)"
        unfolding Js_def by (rule distinct_keys_strip[OF "1.prems"(1) preJ])
      have dKs: "distinct (map fst Ks)"
        unfolding Ks_def by (rule distinct_keys_strip[OF "1.prems"(2) preK])
      have ss: "set Js = set Ks" unfolding Js_def Ks_def using "1.prems"(3) by simp
      have ih: "refNode f (subTrie Js i) = refNode f (subTrie Ks i)" if "i < 16" for i
      proof (rule "1.IH"[OF ne l1 p_def Js_def])
        show "i \<in> set [0..<16]" using that by simp
        show "distinct (map fst (subTrie Js i))" by (rule distinct_keys_subTrie[OF dJs])
        show "distinct (map fst (subTrie Ks i))" by (rule distinct_keys_subTrie[OF dKs])
        show "set (subTrie Js i) = set (subTrie Ks i)" by (rule set_subTrie[OF ss])
      qed
      have m: "map (\<lambda>i. capNode f (refNode f (subTrie Js i))) [0..<16]
             = map (\<lambda>i. capNode f (refNode f (subTrie Ks i))) [0..<16]"
        by (rule map_cong) (simp_all add: ih)
      show ?thesis
        unfolding refNode_many[OF lJ, of f] refNode_many[OF lK, of f] Let_def pK
          p_def[symmetric] Js_def[symmetric] Ks_def[symmetric] m ..
    qed
  qed
qed

lemma keys_Cons: "map fst (map (\<lambda>(q, v). (a # q, v)) X) = map ((#) a) (map fst X)"
  by (induction X) auto

lemma keys_append: "map fst (map (\<lambda>(q, v). (k @ q, v)) X) = map ((@) k) (map fst X)"
  by (induction X) auto

lemma distinct_map_inj: "distinct xs \<Longrightarrow> inj f \<Longrightarrow> distinct (map f xs)"
  by (metis distinct_map inj_on_subset subset_UNIV)

lemma contentsChildren_distinct:
  assumes "\<And>c. c \<in> set cs \<Longrightarrow> distinct (map fst (contents c))"
  shows "j + length cs \<le> 256 \<Longrightarrow> distinct (map fst (contentsChildren j cs))"
  using assms
proof (induction cs arbitrary: j)
  case Nil
  then show ?case by simp
next
  case (Cons c cs)
  have j: "j < 256" using Cons.prems(1) by simp
  have d1: "distinct (map ((#) (of_nat j :: byte)) (map fst (contents c)))"
    by (rule distinct_map_inj[OF Cons.prems(2)[of c]]) simp_all
  have d2: "distinct (map fst (contentsChildren (Suc j) cs))"
    using Cons.IH[of "Suc j"] Cons.prems by simp
  have dis: "set (map ((#) (of_nat j :: byte)) (map fst (contents c)))
             \<inter> set (map fst (contentsChildren (Suc j) cs)) = {}"
  proof (rule ccontr)
    assume "\<not> ?thesis"
    then obtain x where x1: "x \<in> set (map ((#) (of_nat j :: byte)) (map fst (contents c)))"
      and x2: "x \<in> set (map fst (contentsChildren (Suc j) cs))" by blast
    from x1 obtain q where q: "x = of_nat j # q" by auto
    from x2 obtain v where "(x, v) \<in> set (contentsChildren (Suc j) cs)" by auto
    from contentsChildren_elem[OF this] obtain i q' where
      i: "i < length cs \<and> x = of_nat (Suc j + i) # q' \<and> (q', v) \<in> set (contents (cs ! i))"
      by (elim exE) (rule that)
    then have "(of_nat j :: byte) = of_nat (Suc j + i)" using q by simp
    moreover have "Suc j + i < 256" using i Cons.prems(1) by simp
    ultimately have "j = Suc j + i" using byte_of_nat_inj[OF j] by blast
    then show False by simp
  qed
  show ?case
    unfolding contentsChildren.simps map_append keys_Cons
    by (rule iffD2[OF distinct_append, OF conjI[OF d1 conjI[OF d2 dis]]])
qed

lemma contents_distinct: "wfNode pre n \<Longrightarrow> distinct (map fst (contents n))"
proof (induction n arbitrary: pre)
  case (Full k cs ver)
  then have cs: "length cs = 16" and wc: "wfChildren (pre @ k) 0 cs"
    by (simp_all add: NumChildren_def)
  have ch: "distinct (map fst (contents c))" if c: "c \<in> set cs" for c
  proof (cases "c = Nil_node")
    case True
    then show ?thesis by simp
  next
    case False
    from c obtain i where i: "i < length cs" "cs ! i = c" by (auto simp: in_set_conv_nth)
    have "wfNode ((pre @ k) @ [of_nat (0 + i)]) c"
      using wc i False unfolding wfChildren_iff by blast
    then show ?thesis by (rule Full.IH[OF c])
  qed
  have "distinct (map fst (contentsChildren 0 cs))"
    by (rule contentsChildren_distinct[OF ch]) (simp_all add: cs)
  then show ?case unfolding contents.simps keys_append
    by (rule distinct_map_inj) (simp add: inj_on_def)
qed auto

lemma nibble_of_nat: "i < 16 \<Longrightarrow> (of_nat i :: byte) < 16 \<and> unat (of_nat i :: byte) = i"
proof -
  assume i: "i < 16"
  have a: "unat (of_nat i :: byte) = i mod 256" by (simp add: unat_of_nat)
  have "i mod 256 = i" using i by simp
  then have u: "unat (of_nat i :: byte) = i" unfolding a .
  then show ?thesis using i by (simp add: word_less_nat_alt)
qed

lemma contents_lookup:
  "wfNode pre n \<Longrightarrow> ((x, v) \<in> set (contents n) \<longleftrightarrow> lookup n (x @ [16]) = Some v)"
proof (induction n arbitrary: pre x)
  case Nil_node
  then show ?case by simp
next
  case (Stored h l ver)
  then show ?case by simp
next
  case (Leaf k v' ver)
  then have "validTail k" by simp
  then have "k = butlast k @ [16]" by (metis validTail_def append_butlast_last_id)
  then have "x @ [16] = k \<longleftrightarrow> x = butlast k" by (metis append_same_eq)
  then show ?case by auto
next
  case (WithDeletedKeys n ks)
  then have "wfNode pre n" by simp
  from WithDeletedKeys.IH[OF this] show ?case by simp
next
  case (Full k cs ver)
  then have cs: "length cs = 16" and wc: "wfChildren (pre @ k) 0 cs"
    by (simp_all add: NumChildren_def)
  have csN: "length cs = NumChildren" using cs by (simp add: NumChildren_def)
  have ch: "(q, v) \<in> set (contents (cs ! i)) \<longleftrightarrow> lookup (cs ! i) (q @ [16]) = Some v"
    if i: "i < 16" for i q
  proof (cases "cs ! i = Nil_node")
    case True
    then show ?thesis by simp
  next
    case False
    have il: "i < length cs" using i cs by simp
    have m: "cs ! i \<in> set cs" using il by simp
    have "wfNode ((pre @ k) @ [of_nat (0 + i)]) (cs ! i)"
      using wc il False unfolding wfChildren_iff by blast
    then show ?thesis by (rule Full.IH[OF m])
  qed
  show ?case
  proof
    assume "(x, v) \<in> set (contents (Full k cs ver))"
    then obtain y where y: "x = k @ y" "(y, v) \<in> set (contentsChildren 0 cs)" by auto
    from contentsChildren_elem[OF y(2)] obtain i q where
      iq: "i < length cs \<and> y = of_nat (0 + i) # q \<and> (q, v) \<in> set (contents (cs ! i))"
      by (elim exE) (rule that)
    then have i: "i < 16" and yq: "y = of_nat i # q" and m: "(q, v) \<in> set (contents (cs ! i))"
      using cs by simp_all
    note n = nibble_of_nat[OF i]
    have e: "x @ [16] = k @ of_nat i # (q @ [16])" by (simp add: y(1) yq)
    have "lookup (cs ! i) (q @ [16]) = Some v" using ch[OF i] m by simp
    then show "lookup (Full k cs ver) (x @ [16]) = Some v"
      unfolding e lookup_Full_child[OF csN] using n by simp
  next
    assume l: "lookup (Full k cs ver) (x @ [16]) = Some v"
    define r where "r = (x @ [16]) ! length k"
    from l have cond: "take (length k) (x @ [16]) = k \<and> length k < length (x @ [16]) \<and> r < 16"
      and lc: "lookup (cs ! unat r) (drop (Suc (length k)) (x @ [16])) = Some v"
      unfolding lookup_Full_child[OF csN] r_def by (auto split: if_splits)
    have lk: "length k < length x"
    proof (rule ccontr)
      assume "\<not> length k < length x"
      then have "length k = length x" using cond by simp
      then have "r = 16" by (simp add: r_def)
      then show False using cond by simp
    qed
    then have tk: "take (length k) x = k" using cond by simp
    have rx: "r = x ! length k" using lk by (simp add: r_def nth_append)
    define q where "q = drop (Suc (length k)) x"
    have x: "x = k @ r # q"
      using id_take_nth_drop[OF lk] tk by (simp add: rx q_def)
    have dq: "drop (Suc (length k)) (x @ [16]) = q @ [16]" using lk by (simp add: q_def)
    have i: "unat r < 16" using cond by (simp add: unat_nibble)
    have "(q, v) \<in> set (contents (cs ! unat r))" using ch[OF i] lc dq by simp
    from contentsChildren_mem[OF _ this, of 0] i cs
    have "(of_nat (unat r) # q, v) \<in> set (contentsChildren 0 cs)" by simp
    then have "(r # q, v) \<in> set (contentsChildren 0 cs)" by simp
    then show "(x, v) \<in> set (contents (Full k cs ver))"
      by (subst x) force
  qed
qed

lemma Hash_ref:
  assumes wf: "wfRoot (root t)"
  shows "Hash t = Inr (refRoot (finalizer t) (contents (root t)))"
  using wf
proof (cases rule: wfRoot_cases)
  case empty
  then show ?thesis by (simp add: Hash_def Finalize_def refRoot_def)
next
  case tree
  from finalize_ref[OF tree, of "finalizer t" True] contents_nonempty[OF tree]
  show ?thesis by (simp add: Hash_def Finalize_def refRoot_def)
next
  case (tombs ks)
  then show ?thesis by (simp add: Hash_def Finalize_def refRoot_def)
qed

lemma contents_root_lookup:
  assumes wf: "wfRoot r"
  shows "(x, v) \<in> set (contents r) \<longleftrightarrow> lookup r (x @ [16]) = Some v"
  using wf
proof (cases rule: wfRoot_cases)
  case empty
  then show ?thesis by simp
next
  case tree
  then show ?thesis by (rule contents_lookup)
next
  case (tombs ks)
  then show ?thesis by simp
qed

lemma contents_root_distinct:
  assumes wf: "wfRoot r"
  shows "distinct (map fst (contents r))"
  using wf
proof (cases rule: wfRoot_cases)
  case empty
  then show ?thesis by simp
next
  case tree
  then show ?thesis by (rule contents_distinct)
next
  case (tombs ks)
  then show ?thesis by simp
qed

lemma Update_finalizer: "finalizer (snd (Update t k v)) = finalizer t"
  by (simp add: Update_def split: option.splits updateResult.splits)

lemma Remove_finalizer: "finalizer (snd (Remove t k)) = finalizer t"
  by (simp add: Remove_def split: option.splits removeResult.splits)

lemma applyOp_finalizer: "finalizer (applyOp t x) = finalizer t"
  by (cases x) (simp_all add: Update_finalizer Remove_finalizer)

lemma applyOps_finalizer: "finalizer (applyOps t ops) = finalizer t"
  unfolding applyOps_def by (induction ops arbitrary: t) (simp_all add: applyOp_finalizer)

lemma applyOps_snoc: "applyOps t (ops @ [x]) = applyOp (applyOps t ops) x"
  by (simp add: applyOps_def)

lemma Keybytes_Hex_nibbles: "Keybytes_Hex k = keyNibbles k @ [16]"
  by (simp add: Keybytes_Hex_def keyNibbles_def)

lemma keyNibbles_inj: "keyNibbles a = keyNibbles b \<Longrightarrow> a = b"
  unfolding keyNibbles_def by (rule nibbles_inj)

lemma insertAll_lookup:
  assumes wf0: "wfRoot (root t0)" and e0: "\<And>q. lookup (root t0) q = None"
  shows "validPairs kvs \<Longrightarrow>
     wfRoot (root (applyOps t0 (insertAll kvs))) \<and>
     (\<forall>q v. lookup (root (applyOps t0 (insertAll kvs))) q = Some v \<longleftrightarrow>
            (\<exists>k. (k, v) \<in> set kvs \<and> q = Keybytes_Hex k))"
proof (induction kvs rule: rev_induct)
  case Nil
  show ?case using wf0 e0 by (simp add: insertAll_def applyOps_def)
next
  case (snoc x xs)
  obtain k v where x: "x = (k, v)" by (cases x) auto
  from snoc.prems have vx: "validPairs xs" and len: "length k = 32" and val: "v \<noteq> deletedValue"
    and fresh: "k \<notin> fst ` set xs"
    by (auto simp: validPairs_def x)
  define t where "t = applyOps t0 (insertAll xs)"
  from snoc.IH[OF vx] have wf: "wfRoot (root t)"
    and ih: "\<forall>q v. lookup (root t) q = Some v \<longleftrightarrow> (\<exists>k. (k, v) \<in> set xs \<and> q = Keybytes_Hex k)"
    unfolding t_def by simp_all
  have step: "applyOps t0 (insertAll (xs @ [x])) = snd (Update t (Some k) (Some v))"
    by (simp add: insertAll_def applyOps_snoc t_def x)
  note u = Update_spec[OF len val wf]
  have lk: "lookup (root (snd (Update t (Some k) (Some v)))) q =
              (if q = Keybytes_Hex k then Some v else lookup (root t) q)" for q
    using u[THEN conjunct2, THEN conjunct2] by simp
  have "(lookup (root (snd (Update t (Some k) (Some v)))) q = Some w) \<longleftrightarrow>
        (\<exists>k'. (k', w) \<in> set (xs @ [x]) \<and> q = Keybytes_Hex k')" for q w
  proof (cases "q = Keybytes_Hex k")
    case True
    have "\<not> (\<exists>k'. (k', w) \<in> set xs \<and> Keybytes_Hex k = Keybytes_Hex k')"
    proof
      assume "\<exists>k'. (k', w) \<in> set xs \<and> Keybytes_Hex k = Keybytes_Hex k'"
      then obtain k' where k': "(k', w) \<in> set xs" "Keybytes_Hex k = Keybytes_Hex k'" by blast
      then have "k' = k" using Keybytes_Hex_inj by metis
      then show False using k'(1) fresh by force
    qed
    then show ?thesis unfolding lk True x by auto
  next
    case False
    then have "\<And>k'. q = Keybytes_Hex k' \<Longrightarrow> k' \<noteq> k" by auto
    then show ?thesis unfolding lk x using False ih by auto
  qed
  then show ?case unfolding step using u[THEN conjunct2, THEN conjunct1] by blast
qed

lemma built_contents:
  assumes vp: "validPairs kvs"
  shows "set (contents (root (applyOps (NewEmptyLudicrousTrie f c ver) (insertAll kvs))))
         = set (referencePairs kvs)"
proof -
  define t where "t = applyOps (NewEmptyLudicrousTrie f c ver) (insertAll kvs)"
  note il = insertAll_lookup[OF wfRoot_empty lookup_empty vp, of f c ver, folded t_def]
  note wf = il[THEN conjunct1] and lk = il[THEN conjunct2, rule_format]
  have "(x, v) \<in> set (contents (root t)) \<longleftrightarrow> (x, v) \<in> set (referencePairs kvs)" for x v
  proof -
    have "(x, v) \<in> set (contents (root t)) \<longleftrightarrow> (\<exists>k. (k, v) \<in> set kvs \<and> x @ [16] = Keybytes_Hex k)"
      unfolding contents_root_lookup[OF wf] lk ..
    also have "\<dots> \<longleftrightarrow> (\<exists>k. (k, v) \<in> set kvs \<and> x = keyNibbles k)"
      by (simp add: Keybytes_Hex_nibbles)
    also have "\<dots> \<longleftrightarrow> (x, v) \<in> set (referencePairs kvs)"
      by (auto simp: referencePairs_def)
    finally show ?thesis .
  qed
  then show ?thesis unfolding t_def by auto
qed

lemma referencePairs_distinct: "validPairs kvs \<Longrightarrow> distinct (map fst (referencePairs kvs))"
proof -
  assume "validPairs kvs"
  then have d: "distinct (map fst kvs)" by (simp add: validPairs_def)
  have "map fst (referencePairs kvs) = map keyNibbles (map fst kvs)"
    by (simp add: referencePairs_def comp_def case_prod_beta)
  moreover have "inj keyNibbles" using keyNibbles_inj by (rule injI)
  ultimately show ?thesis using distinct_map_inj[OF d] by simp
qed

lemma refRoot_set:
  assumes "distinct (map fst J)" "distinct (map fst K)" "set J = set K"
  shows "refRoot f J = refRoot f K"
proof -
  have "J = [] \<longleftrightarrow> K = []" using assms(3) by (metis set_empty)
  then show ?thesis unfolding refRoot_def using refNode_set[OF assms, of f] by simp
qed

section \<open>Tries built in memory\<close>









text \<open>
  Claim C2, against the reference trie as it is modelled here from its definition:
  after the pairs of a list are inserted into the empty trie (distinct keys of 32
  bytes, values that are not empty and not the reserved value), \<open>Hash\<close> returns the
  root hash of the reference trie over the same set of pairs, given as any list
  without repeated keys that holds these pairs, for every hash function.
\<close>

theorem hash_is_reference_root:
  assumes vp: "validPairs kvs" and dJ: "distinct (map fst J)"
    and sJ: "set J = set (referencePairs kvs)"
  shows "Hash (applyOps (NewEmptyLudicrousTrie f c ver) (insertAll kvs)) = Inr (refRoot f J)"
proof -
  define t where "t = applyOps (NewEmptyLudicrousTrie f c ver) (insertAll kvs)"
  have wf: "wfRoot (root t)" unfolding t_def by (rule built_wfRoot)
  have fin: "finalizer t = f"
    unfolding t_def applyOps_finalizer by (simp add: NewEmptyLudicrousTrie_def)
  have sc: "set (contents (root t)) = set J"
    unfolding t_def sJ by (rule built_contents[OF vp])
  have r: "refRoot f (contents (root t)) = refRoot f J"
    by (rule refRoot_set[OF contents_root_distinct[OF wf] dJ sc])
  have "Hash t = Inr (refRoot f J)" using Hash_ref[OF wf] unfolding fin r .
  then show ?thesis unfolding t_def .
qed

theorem hash_is_reference_root_witness:
  "validPairs scenarioPairs \<and> distinct (map fst (rev (referencePairs scenarioPairs))) \<and>
   Hash (applyOps emptyTrie (insertAll scenarioPairs))
     = Inr (refRoot constantHash (rev (referencePairs scenarioPairs)))"
proof -
  have a: "validPairs scenarioPairs" by code_simp
  have b: "distinct (map fst (rev (referencePairs scenarioPairs)))" by code_simp
  have c: "set (rev (referencePairs scenarioPairs)) = set (referencePairs scenarioPairs)" by simp
  from hash_is_reference_root[OF a b c, of constantHash failingCollection 0] a b
  show ?thesis unfolding emptyTrie_def by simp
qed

end
